theory Spec2Isabelle
  imports Complex_Main "HOL-Library.Multiset" "HOL-Library.AList" "HOL-Library.Product_Lexorder"
begin

section \<open>Python and numpy primitives used by the program\<close>

text \<open>
  Exceptions are values.  \<open>Exception\<close> is the plain \<^verbatim>\<open>raise Exception(...)\<close> of the
  source; the others are raised by Python or numpy themselves.
\<close>

datatype error =
  ValueError | IndexError | KeyError | ZeroDivisionError | IOError | TypeError | OverflowError
  | NameError | Exception

definition bnd :: "error + 'a \<Rightarrow> ('a \<Rightarrow> error + 'b) \<Rightarrow> error + 'b" where
  "bnd m f = (case m of Inl e \<Rightarrow> Inl e | Inr x \<Rightarrow> f x)"

text \<open>\<^verbatim>\<open>np.arange(a, b)\<close>: the integers \<open>a, a + 1, ..., b - 1\<close>.\<close>

definition arange :: "int \<Rightarrow> int \<Rightarrow> int list" where
  "arange a b = [a..b - 1]"

text \<open>
  A slice bound of a sequence of length \<open>n\<close>: a negative bound counts from the end, and
  the result is clipped to \<open>0..n\<close>.  \<open>None\<close> is an omitted bound.
\<close>

definition norm_idx :: "nat \<Rightarrow> int \<Rightarrow> nat" where
  "norm_idx n i = (if i < 0 then nat (max 0 (i + int n)) else min n (nat i))"

definition slice_lo :: "nat \<Rightarrow> int option \<Rightarrow> nat" where
  "slice_lo n lo = (case lo of None \<Rightarrow> 0 | Some i \<Rightarrow> norm_idx n i)"

definition slice_hi :: "nat \<Rightarrow> int option \<Rightarrow> nat" where
  "slice_hi n hi = (case hi of None \<Rightarrow> n | Some i \<Rightarrow> norm_idx n i)"

text \<open>
  \<^verbatim>\<open>row[lo:hi] = src\<close> for a one-dimensional numpy array \<open>row\<close> and an array \<open>src\<close>:
  the shapes must agree, except that a source of one element is broadcast; otherwise
  numpy raises \<^verbatim>\<open>ValueError\<close> (could not broadcast input array).
\<close>

definition assign_slice :: "'a list \<Rightarrow> int option \<Rightarrow> int option \<Rightarrow> 'a list \<Rightarrow> error + 'a list" where
  "assign_slice row lo hi src =
     (let n = length row; a = slice_lo n lo; b = slice_hi n hi; len = b - a
      in if length src = len then Inr (take a row @ src @ drop (a + len) row)
         else if length src = 1 then Inr (take a row @ replicate len (hd src) @ drop (a + len) row)
         else Inl ValueError)"

text \<open>\<^verbatim>\<open>holder[l, lo:hi] = src\<close> for a two-dimensional array and a row index \<open>l\<close>.\<close>

definition set_row_slice ::
  "'a list list \<Rightarrow> int \<Rightarrow> int option \<Rightarrow> int option \<Rightarrow> 'a list \<Rightarrow> error + 'a list list" where
  "set_row_slice holder l lo hi src =
     (let n = int (length holder); j = (if l < 0 then n + l else l)
      in if 0 \<le> j \<and> j < n
         then bnd (assign_slice (holder ! nat j) lo hi src) (\<lambda>r. Inr (holder[nat j := r]))
         else Inl IndexError)"

section \<open>util.py: get\_batch\_num\_list\<close>

text \<open>
  \<^verbatim>\<open>np.mod\<close> receives two Python integers and gives each a numpy type by its value:
  \<^verbatim>\<open>int64\<close> when it fits, \<^verbatim>\<open>uint64\<close> from \<open>2^63\<close> up to \<open>2^64 - 1\<close>, and a Python object
  otherwise.
\<close>

definition in_int64 :: "int \<Rightarrow> bool" where
  "in_int64 x \<longleftrightarrow> - (2 ^ 63) \<le> x \<and> x < 2 ^ 63"

definition in_uint64 :: "int \<Rightarrow> bool" where
  "in_uint64 x \<longleftrightarrow> 0 \<le> x \<and> x < 2 ^ 64"

text \<open>
  The value of an integer once converted to \<^verbatim>\<open>float64\<close>: 53 significant bits, rounded to
  the nearest, ties to the even neighbour.  It is again an integer.
\<close>

function bit_length :: "int \<Rightarrow> nat" where
  "bit_length n = (if n \<le> 0 then 0 else Suc (bit_length (n div 2)))"
  by pat_completeness auto

termination
  by (relation "measure nat") auto

declare bit_length.simps [simp del]

definition to_float64 :: "int \<Rightarrow> int" where
  "to_float64 x =
     (let m = \<bar>x\<bar>; u = 2 ^ (bit_length m - 53); q = m div u; r = m mod u
      in sgn x * ((if 2 * r < u \<or> (2 * r = u \<and> even q) then q else q + 1) * u))"

text \<open>
  The remainder of two \<^verbatim>\<open>float64\<close> values as numpy computes it: \<^verbatim>\<open>fmod\<close>, which is exact
  and has the sign of the dividend, moved by the divisor when the signs differ; \<open>None\<close> is
  the \<^verbatim>\<open>nan\<close> of a zero divisor.
\<close>

definition float64_mod :: "int \<Rightarrow> int \<Rightarrow> int option" where
  "float64_mod a b =
     (if b = 0 then None
      else let m = sgn a * (\<bar>a\<bar> mod \<bar>b\<bar>)
           in Some (if m \<noteq> 0 \<and> (b < 0) \<noteq> (m < 0) then to_float64 (m + b) else m))"

text \<open>What \<^verbatim>\<open>np.mod\<close> returns: an integer (of numpy or of Python) or a \<^verbatim>\<open>float64\<close>.\<close>

datatype np_number = NpInt int | NpFloat "int option"

text \<open>
  \<^verbatim>\<open>np.mod(total_num, batch_num)\<close>.  Two \<^verbatim>\<open>int64\<close> operands give an \<^verbatim>\<open>int64\<close>, 0 for a zero
  divisor (with a warning) and of the sign of the divisor otherwise; two \<^verbatim>\<open>uint64\<close>
  operands give a \<^verbatim>\<open>uint64\<close>; an \<^verbatim>\<open>int64\<close> and a \<^verbatim>\<open>uint64\<close> operand are both converted to
  \<^verbatim>\<open>float64\<close>; with an operand outside both types the remainder is Python's own, which
  raises on a zero divisor.
\<close>

definition np_mod :: "int \<Rightarrow> int \<Rightarrow> error + np_number" where
  "np_mod a b =
     (if in_int64 a \<and> in_int64 b then Inr (NpInt (if b = 0 then 0 else a mod b))
      else if (in_int64 a \<or> in_uint64 a) \<and> (in_int64 b \<or> in_uint64 b)
      then (if in_int64 a \<or> in_int64 b
            then Inr (NpFloat (float64_mod (to_float64 a) (to_float64 b)))
            else Inr (NpInt (a mod b)))
      else if b = 0 then Inl ZeroDivisionError
      else Inr (NpInt (a mod b)))"

text \<open>\<^verbatim>\<open>redundant_num != 0\<close>; a \<^verbatim>\<open>nan\<close> differs from 0.\<close>

definition is_nonzero :: "np_number \<Rightarrow> bool" where
  "is_nonzero x = (case x of NpInt r \<Rightarrow> r \<noteq> 0 | NpFloat v \<Rightarrow> v \<noteq> Some 0)"

text \<open>Python's \<^verbatim>\<open>//\<close> raises on a zero divisor and rounds down otherwise.\<close>

definition floordiv :: "int \<Rightarrow> int \<Rightarrow> error + int" where
  "floordiv a b = (if b = 0 then Inl ZeroDivisionError else Inr (a div b))"

text \<open>
  \<^verbatim>\<open>[x, ] * n\<close> for an integer \<open>n\<close>: the list is empty for a negative \<open>n\<close>, and a count
  that does not fit the index type raises \<^verbatim>\<open>OverflowError\<close>.  Memory is taken to be
  unbounded.
\<close>

definition repeat :: "'a \<Rightarrow> int \<Rightarrow> error + 'a list" where
  "repeat x n = (if in_int64 n then Inr (replicate (nat n) x) else Inl OverflowError)"

text \<open>
  Lines 195--204.  A list cannot be repeated a \<^verbatim>\<open>float64\<close> number of times: line 198
  raises \<^verbatim>\<open>TypeError\<close> then.
\<close>

definition get_batch_num_list :: "int \<Rightarrow> int \<Rightarrow> error + int list" where
  "get_batch_num_list total_num batch_num =
     bnd (np_mod total_num batch_num) (\<lambda>redundant_num.
       if is_nonzero redundant_num
       then bnd (floordiv total_num batch_num) (\<lambda>number_per_batch.
              case redundant_num of
                NpFloat v \<Rightarrow> Inl TypeError
              | NpInt r \<Rightarrow>
                  bnd (repeat (number_per_batch + 1) r) (\<lambda>batch_num_list.
                  bnd (repeat number_per_batch (batch_num - r)) (\<lambda>rest.
                    Inr (batch_num_list @ rest))))
       else bnd (floordiv total_num batch_num) (\<lambda>number_per_batch.
              repeat number_per_batch batch_num))"

section \<open>util.py: get\_batch\_idx\_per\_list\<close>

text \<open>
  The loop \<^verbatim>\<open>for l in range(1, batch_num - 1)\<close>, over the list of its indices.  Each
  pass writes \<^verbatim>\<open>holder[l, :l] = np.arange(l)\<close> and then
  \<^verbatim>\<open>holder[l, l:] = np.arange(l, batch_num)\<close>.
\<close>

fun fill_rows :: "int \<Rightarrow> int list \<Rightarrow> int list list \<Rightarrow> error + int list list" where
  "fill_rows batch_num [] holder = Inr holder"
| "fill_rows batch_num (l # ls) holder =
     bnd (set_row_slice holder l None (Some l) (arange 0 l)) (\<lambda>h1.
     bnd (set_row_slice h1 l (Some l) None (arange l batch_num)) (\<lambda>h2.
     fill_rows batch_num ls h2))"

text \<open>
  \<^verbatim>\<open>np.zeros((batch_num, batch_num - 1))\<close> raises \<^verbatim>\<open>ValueError\<close> on a negative
  dimension, which is the case for \<open>batch_num \<le> 0\<close>.
\<close>

definition get_batch_idx_per_list :: "int \<Rightarrow> error + int list list" where
  "get_batch_idx_per_list batch_num =
     (let batch_num_per_line = batch_num - 1
      in if batch_num < 0 \<or> batch_num_per_line < 0 then Inl ValueError
         else
           let holder = replicate (nat batch_num) (replicate (nat batch_num_per_line) (0::int))
           in bnd (set_row_slice holder 0 None None (arange 1 batch_num)) (\<lambda>h1.
              bnd (set_row_slice h1 (batch_num - 1) None None (arange 0 batch_num_per_line)) (\<lambda>h2.
              fill_rows batch_num (arange 1 (batch_num - 1)) h2)))"

text \<open>Worker \<open>l\<close> scans batch \<open>m\<close>: \<open>m\<close> occurs in row \<open>l\<close> of the array.\<close>

definition scans :: "int list list \<Rightarrow> int \<Rightarrow> int \<Rightarrow> bool" where
  "scans holder l m = (m \<in> set (holder ! nat l))"

text \<open>\<^verbatim>\<open>xs[i]\<close> for a Python list and an integer index.\<close>

definition py_get :: "'a list \<Rightarrow> int \<Rightarrow> error + 'a" where
  "py_get xs i =
     (if 0 \<le> i \<and> i < int (length xs) then Inr (xs ! nat i)
      else if i < 0 \<and> - int (length xs) \<le> i then Inr (xs ! nat (i + int (length xs)))
      else Inl IndexError)"

section \<open>util.py: assemble\_mat\<close>

text \<open>
  A saved patch is a two-dimensional array: its shape and its entries.  The folder
  \<^verbatim>\<open>output_path + '/distances'\<close> is modelled by whether it is a directory and by the
  patch stored under \<^verbatim>\<open>patch_l_m.npy\<close>, if that file exists; the file name is determined
  by the pair \<open>(l, m)\<close>, which stands for it.  The fields of \<open>data_source\<close> are the
  ones \<^verbatim>\<open>assemble_mat\<close> reads.
\<close>

record patch =
  shape0 :: nat
  shape1 :: nat
  entry :: "nat \<Rightarrow> nat \<Rightarrow> real"

record data_source =
  batch_number :: int
  pattern_number_total :: int
  batch_size_list :: "int list"

record distances_folder =
  isdir :: bool
  patch_file :: "int \<times> int \<Rightarrow> patch option"

text \<open>
  \<^verbatim>\<open>holder[r0:r1, c0:c1] = patch_holder\<close> on a two-dimensional array, a list of rows
  of one length \<open>ncols\<close>.  The slices are clipped to the array; the patch must have the
  shape of the selected block, where an axis of length 1 is broadcast; otherwise numpy
  raises \<^verbatim>\<open>ValueError\<close>.
\<close>

definition ncols :: "'a list list \<Rightarrow> nat" where
  "ncols holder = (case holder of [] \<Rightarrow> 0 | row # _ \<Rightarrow> length row)"

definition assign_block ::
  "real list list \<Rightarrow> int \<Rightarrow> int \<Rightarrow> int \<Rightarrow> int \<Rightarrow> patch \<Rightarrow> error + real list list" where
  "assign_block holder r0 r1 c0 c1 p =
     (let n = length holder; k = ncols holder;
          a0 = norm_idx n r0; b0 = norm_idx n r1; a1 = norm_idx k c0; b1 = norm_idx k c1
      in if (shape0 p = b0 - a0 \<or> shape0 p = 1) \<and> (shape1 p = b1 - a1 \<or> shape1 p = 1)
         then Inr (map (\<lambda>i. map (\<lambda>j.
                if a0 \<le> i \<and> i < b0 \<and> norm_idx (length (holder ! i)) c0 \<le> j
                   \<and> j < norm_idx (length (holder ! i)) c1
                then entry p (if shape0 p = 1 then 0 else i - a0) (if shape1 p = 1 then 0 else j - a1)
                else holder ! i ! j) [0..<length (holder ! i)]) [0..<n])
         else Inl ValueError)"

text \<open>The first double loop: \<open>flag\<close> stays true iff every expected patch file exists.\<close>

definition all_patches_exist :: "distances_folder \<Rightarrow> int \<Rightarrow> bool" where
  "all_patches_exist folder batch_num =
     list_all (\<lambda>l. list_all (\<lambda>m. patch_file folder (l, m) \<noteq> None) (arange l batch_num))
       (arange 0 batch_num)"

text \<open>
  The loop \<^verbatim>\<open>for m in range(l, batch_num)\<close> of the assembly, over the list of its
  indices, with the state \<open>holder\<close>, \<open>start_dim_1\<close>.  \<^verbatim>\<open>np.load\<close> fails on a missing file.
\<close>

fun assemble_row ::
  "data_source \<Rightarrow> distances_folder \<Rightarrow> int \<Rightarrow> int \<Rightarrow> int \<Rightarrow> int list \<Rightarrow> real list list \<Rightarrow> int
     \<Rightarrow> error + real list list" where
  "assemble_row ds folder l start_dim_0 end_dim_0 [] holder start_dim_1 = Inr holder"
| "assemble_row ds folder l start_dim_0 end_dim_0 (m # ms) holder start_dim_1 =
     (case patch_file folder (l, m) of
        None \<Rightarrow> Inl IOError
      | Some patch_holder \<Rightarrow>
          bnd (py_get (batch_size_list ds) l) (\<lambda>size_l.
          if int (shape0 patch_holder) \<noteq> size_l then Inl Exception
          else bnd (py_get (batch_size_list ds) m) (\<lambda>size_m.
          if int (shape1 patch_holder) \<noteq> size_m then Inl Exception
          else
            let end_dim_1 = start_dim_1 + size_m
            in bnd (assign_block holder start_dim_0 end_dim_0 start_dim_1 end_dim_1 patch_holder)
                 (\<lambda>holder'. assemble_row ds folder l start_dim_0 end_dim_0 ms holder' end_dim_1))))"

text \<open>The loop \<^verbatim>\<open>for l in range(batch_num)\<close>, with the state \<open>holder\<close>, \<open>start_dim_0\<close>.\<close>

fun assemble_rows ::
  "data_source \<Rightarrow> distances_folder \<Rightarrow> int list \<Rightarrow> real list list \<Rightarrow> int \<Rightarrow> error + real list list" where
  "assemble_rows ds folder [] holder start_dim_0 = Inr holder"
| "assemble_rows ds folder (l # ls) holder start_dim_0 =
     bnd (py_get (batch_size_list ds) l) (\<lambda>size_l.
       let end_dim_0 = start_dim_0 + size_l
       in bnd (assemble_row ds folder l start_dim_0 end_dim_0 (arange l (batch_number ds))
                 holder start_dim_0)
            (\<lambda>holder'. assemble_rows ds folder ls holder' end_dim_0))"

definition assemble_mat :: "data_source \<Rightarrow> distances_folder \<Rightarrow> error + real list list" where
  "assemble_mat ds folder =
     (let batch_num = batch_number ds; total_num = pattern_number_total ds
      in if \<not> isdir folder then Inl Exception
         else if \<not> all_patches_exist folder batch_num then Inl Exception
         else if total_num < 0 then Inl ValueError
         else assemble_rows ds folder (arange 0 batch_num)
                (replicate (nat total_num) (replicate (nat total_num) 0)) 0)"

text \<open>
  The first row of batch \<open>l\<close> in the assembled matrix: the value of \<open>start_dim_0\<close> when
  the outer loop reaches \<open>l\<close>.
\<close>

definition block_start :: "data_source \<Rightarrow> int \<Rightarrow> int" where
  "block_start ds l = sum_list (take (nat l) (batch_size_list ds))"

text \<open>
  A loaded patch fits the record when its shape is
  \<open>(batch_size_list[l], batch_size_list[m])\<close>.
\<close>

definition fits :: "data_source \<Rightarrow> int \<Rightarrow> int \<Rightarrow> patch \<Rightarrow> bool" where
  "fits ds l m p \<longleftrightarrow> py_get (batch_size_list ds) l = Inr (int (shape0 p))
                    \<and> py_get (batch_size_list ds) m = Inr (int (shape1 p))"

text \<open>The size of batch \<open>l\<close> as the loops read it, 0 where the read fails.\<close>

definition size_of :: "data_source \<Rightarrow> int \<Rightarrow> int" where
  "size_of ds l = (case py_get (batch_size_list ds) l of Inr b \<Rightarrow> b | Inl e \<Rightarrow> 0)"

text \<open>
  A run with two batches of sizes 1 and 2: the three patches of the upper triangle, and
  the same folder with the patch (0, 1) saved with a wrong shape.
\<close>

definition example_source :: data_source where
  "example_source = \<lparr>batch_number = 2, pattern_number_total = 3, batch_size_list = [1, 2]\<rparr>"

definition example_folder :: distances_folder where
  "example_folder = \<lparr>isdir = True, patch_file = (\<lambda>(l, m).
     if (l, m) = (0, 0) then Some \<lparr>shape0 = 1, shape1 = 1, entry = (\<lambda>i j. 5)\<rparr>
     else if (l, m) = (0, 1) then Some \<lparr>shape0 = 1, shape1 = 2, entry = (\<lambda>i j. 6 + real j)\<rparr>
     else if (l, m) = (1, 1) then Some \<lparr>shape0 = 2, shape1 = 2, entry = (\<lambda>i j. 7 + 2 * real i + real j)\<rparr>
     else None)\<rparr>"

definition example_folder_bad :: distances_folder where
  "example_folder_bad = \<lparr>isdir = True, patch_file = (\<lambda>(l, m).
     if (l, m) = (0, 0) then Some \<lparr>shape0 = 1, shape1 = 1, entry = (\<lambda>i j. 5)\<rparr>
     else if (l, m) = (0, 1) then Some \<lparr>shape0 = 1, shape1 = 3, entry = (\<lambda>i j. 6 + real j)\<rparr>
     else if (l, m) = (1, 1) then Some \<lparr>shape0 = 2, shape1 = 2, entry = (\<lambda>i j. 7 + 2 * real i + real j)\<rparr>
     else None)\<rparr>"

section \<open>WeightMat.py: the top-K selection and the off-diagonal merge\<close>

text \<open>
  Correlations are real numbers here; the rounding of the floating-point arithmetic that
  produces them, and NaN, are outside the model.

  \<^verbatim>\<open>np.argsort(a)\<close> on one row: the positions of \<open>a\<close> in ascending order of their values.
  numpy's default sort is an introsort that sorts stretches of at most 16 elements by
  insertion, which keeps equal values in their order; the model is this stable sort.
\<close>

definition argsort :: "real list \<Rightarrow> nat list" where
  "argsort a = sort_key (\<lambda>p. a ! p) [0..<length a]"

text \<open>
  \<^verbatim>\<open>np.argsort(a)[:-(neighbor_number + 1):-1]\<close> on one row: the slice walks the sorted
  positions backwards from the last one and stops after \<open>neighbor_number\<close> of them (or at
  the front of the row).
\<close>

definition top_positions :: "nat \<Rightarrow> real list \<Rightarrow> nat list" where
  "top_positions neighbor_number a = take neighbor_number (rev (argsort a))"

text \<open>
  Modelled from the spec: \<^verbatim>\<open>Graph.get_values_int\<close> and \<^verbatim>\<open>Graph.get_values_float\<close> are
  not among the sources.  The spec has the selected column positions turned into the
  (index, value) pairs kept for the row, so \<open>holder[i, j] = source[i, indexes[i, j]]\<close>;
  this is one row of it, and a position outside the source row is an error.
\<close>

fun get_values :: "'a list \<Rightarrow> nat list \<Rightarrow> error + 'a list" where
  "get_values source [] = Inr []"
| "get_values source (p # ps) =
     bnd (py_get source (int p)) (\<lambda>v. bnd (get_values source ps) (\<lambda>vs. Inr (v # vs)))"

text \<open>
  One row of the merge (lines 277--311).  \<open>col_idx\<close> holds the global indices of the
  bin's columns from position \<open>neighbor_number\<close> on; the row of \<open>aux_dim1_index\<close> is
  \<open>col_idx\<close> with its first \<open>neighbor_number\<close> entries overwritten by the indices kept
  so far.  The kept values are concatenated with the row of the bin's correlations, the
  top positions of the concatenation are selected, and the kept indices and values are
  read at these positions.
\<close>

definition merge_row ::
  "nat \<Rightarrow> real list \<Rightarrow> int list \<Rightarrow> real list \<Rightarrow> int list \<Rightarrow> error + (int list \<times> real list)" where
  "merge_row neighbor_number row_val_to_keep row_idx_to_keep inner_prod_row col_idx =
     bnd (assign_slice col_idx None (Some (int neighbor_number)) row_idx_to_keep) (\<lambda>aux_dim1_index.
       let inner_prod_row' = row_val_to_keep @ inner_prod_row;
           row_idx_pre = top_positions neighbor_number inner_prod_row'
       in bnd (get_values aux_dim1_index row_idx_pre) (\<lambda>row_idx_to_keep'.
          bnd (get_values inner_prod_row' row_idx_pre) (\<lambda>row_val_to_keep'.
          Inr (row_idx_to_keep', row_val_to_keep'))))"

text \<open>
  The spec's merge: the candidates ordered by descending value, equal values by the
  smaller global index first, and the first \<open>K\<close> of them kept.
\<close>

definition topk_spec :: "nat \<Rightarrow> (int \<times> real) list \<Rightarrow> (int \<times> real) list" where
  "topk_spec K cands = take K (sort_key (\<lambda>c. - snd c) (sort_key fst cands))"

text \<open>The \<open>K\<close> largest values of a list, in descending order.\<close>

definition largest :: "nat \<Rightarrow> real list \<Rightarrow> real list" where
  "largest K vals = take K (rev (sort vals))"

section \<open>util.py: get\_global\_index\_map\<close>

text \<open>
  The \<open>3 \<times> data_num_total\<close> array \<open>holder\<close>, by its three rows: row 0 holds the file
  index, row 1 the dataset index and row 2 the local index of every global index.
\<close>

record index_map =
  file_row :: "int list"
  dataset_row :: "int list"
  local_row :: "int list"

text \<open>\<^verbatim>\<open>row[lo:hi] = v\<close> for a scalar \<open>v\<close>: every element of the clipped slice is set.\<close>

definition fill_slice :: "'a list \<Rightarrow> int \<Rightarrow> int \<Rightarrow> 'a \<Rightarrow> 'a list" where
  "fill_slice row lo hi v =
     (let n = length row; a = norm_idx n lo; b = norm_idx n hi
      in take a row @ replicate (b - a) v @ drop (a + (b - a)) row)"

text \<open>
  The loop \<^verbatim>\<open>for dataset_idx in range(dataset_num_per_file[file_idx])\<close>, with the state
  \<open>holder\<close>, \<open>global_idx_dataset_start\<close>.
\<close>

fun dataset_loop ::
  "int list list \<Rightarrow> int \<Rightarrow> int list \<Rightarrow> index_map \<Rightarrow> int \<Rightarrow> error + index_map" where
  "dataset_loop data_num_per_dataset file_idx [] holder global_idx_dataset_start = Inr holder"
| "dataset_loop data_num_per_dataset file_idx (dataset_idx # rest) holder global_idx_dataset_start =
     bnd (py_get data_num_per_dataset file_idx) (\<lambda>counts.
     bnd (py_get counts dataset_idx) (\<lambda>count.
       let global_idx_dataset_end = global_idx_dataset_start + count;
           holder1 = holder\<lparr>dataset_row :=
             fill_slice (dataset_row holder) global_idx_dataset_start global_idx_dataset_end dataset_idx\<rparr>
       in bnd (assign_slice (local_row holder1) (Some global_idx_dataset_start)
                 (Some global_idx_dataset_end) (arange 0 count)) (\<lambda>row2.
          dataset_loop data_num_per_dataset file_idx rest (holder1\<lparr>local_row := row2\<rparr>)
            global_idx_dataset_end)))"

text \<open>
  The loop \<^verbatim>\<open>for file_idx in range(file_num)\<close>, with the state \<open>holder\<close>,
  \<open>global_idx_file_start\<close>.
\<close>

fun file_loop ::
  "int list \<Rightarrow> int list \<Rightarrow> int list list \<Rightarrow> int list \<Rightarrow> index_map \<Rightarrow> int \<Rightarrow> error + index_map" where
  "file_loop data_num_per_file dataset_num_per_file data_num_per_dataset [] holder
     global_idx_file_start = Inr holder"
| "file_loop data_num_per_file dataset_num_per_file data_num_per_dataset (file_idx # rest) holder
     global_idx_file_start =
     bnd (py_get data_num_per_file file_idx) (\<lambda>num.
       let global_idx_file_end = global_idx_file_start + num;
           holder1 = holder\<lparr>file_row :=
             fill_slice (file_row holder) global_idx_file_start global_idx_file_end file_idx\<rparr>
       in bnd (py_get dataset_num_per_file file_idx) (\<lambda>dataset_num.
          bnd (dataset_loop data_num_per_dataset file_idx (arange 0 dataset_num) holder1
                 global_idx_file_start) (\<lambda>holder2.
          file_loop data_num_per_file dataset_num_per_file data_num_per_dataset rest holder2
            global_idx_file_end)))"

definition get_global_index_map ::
  "int \<Rightarrow> int \<Rightarrow> int list \<Rightarrow> int list \<Rightarrow> int list list \<Rightarrow> error + index_map" where
  "get_global_index_map data_num_total file_num data_num_per_file dataset_num_per_file
     data_num_per_dataset =
     (if data_num_total < 0 then Inl ValueError
      else file_loop data_num_per_file dataset_num_per_file data_num_per_dataset
             (arange 0 file_num)
             \<lparr>file_row = replicate (nat data_num_total) 0,
              dataset_row = replicate (nat data_num_total) 0,
              local_row = replicate (nat data_num_total) 0\<rparr> 0)"

text \<open>
  The global indices that the map sends to dataset \<open>d\<close> of file \<open>f\<close>, in ascending order,
  and the four parts of the monotonicity of a map: the file index does not decrease; within
  a file the dataset index does not decrease; the global indices of one (file, dataset)
  pair are contiguous; and the local indices of a pair are \<open>0, 1, ..., count - 1\<close>.
\<close>

definition globals_of :: "index_map \<Rightarrow> int \<Rightarrow> int \<Rightarrow> nat list" where
  "globals_of h f d =
     filter (\<lambda>g. file_row h ! g = f \<and> dataset_row h ! g = d) [0..<length (file_row h)]"

definition monotonic_map :: "index_map \<Rightarrow> bool" where
  "monotonic_map h \<longleftrightarrow>
     length (dataset_row h) = length (file_row h) \<and> length (local_row h) = length (file_row h)
     \<and> sorted (file_row h)
     \<and> (\<forall>i j. i \<le> j \<and> j < length (file_row h) \<and> file_row h ! i = file_row h ! j
            \<longrightarrow> dataset_row h ! i \<le> dataset_row h ! j)
     \<and> (\<forall>i j k. i \<le> j \<and> j \<le> k \<and> k < length (file_row h)
            \<and> file_row h ! i = file_row h ! k \<and> dataset_row h ! i = dataset_row h ! k
            \<longrightarrow> file_row h ! j = file_row h ! i \<and> dataset_row h ! j = dataset_row h ! i)
     \<and> (\<forall>f d. map (\<lambda>g. local_row h ! g) (globals_of h f d)
              = map int [0..<length (globals_of h f d)])"

text \<open>
  Consistent sample counts: one entry per file in each list, as many datasets in
  \<open>dataset_num_per_file\<close> as \<open>data_num_per_dataset\<close> lists, no negative count, and the
  samples of a file are those of its datasets.
\<close>

definition consistent_counts :: "int \<Rightarrow> int list \<Rightarrow> int list \<Rightarrow> int list list \<Rightarrow> bool" where
  "consistent_counts file_num data_num_per_file dataset_num_per_file data_num_per_dataset \<longleftrightarrow>
     file_num = int (length data_num_per_file)
     \<and> length dataset_num_per_file = length data_num_per_file
     \<and> length data_num_per_dataset = length data_num_per_file
     \<and> (\<forall>f < length data_num_per_file.
           dataset_num_per_file ! f = int (length (data_num_per_dataset ! f))
           \<and> data_num_per_file ! f = sum_list (data_num_per_dataset ! f)
           \<and> (\<forall>c \<in> set (data_num_per_dataset ! f). 0 \<le> c))"

text \<open>The row with the segment that starts at position \<open>s\<close> replaced by \<open>xs\<close>.\<close>

definition overwrite :: "'a list \<Rightarrow> nat \<Rightarrow> 'a list \<Rightarrow> 'a list" where
  "overwrite row s xs = take s row @ xs @ drop (s + length xs) row"

text \<open>
  The entries of the map for consistent counts, in closed form: the triples (file index,
  dataset index, local index) of all samples in the order of the files, of the datasets
  in each file, and of the samples in each dataset.
\<close>

definition dataset_triples :: "int \<Rightarrow> int list \<Rightarrow> (int \<times> int \<times> int) list" where
  "dataset_triples f counts =
     concat (map (\<lambda>d. map (\<lambda>k. (f, int d, int k)) [0..<nat (counts ! d)]) [0..<length counts])"

definition all_triples :: "int list list \<Rightarrow> (int \<times> int \<times> int) list" where
  "all_triples data_num_per_dataset =
     concat (map (\<lambda>f. dataset_triples (int f) (data_num_per_dataset ! f))
               [0..<length data_num_per_dataset])"

section \<open>util.py: get\_batch\_ends\<close>

text \<open>
  \<^verbatim>\<open>row[lo:hi]\<close> for reading, and \<^verbatim>\<open>np.unique\<close>: the distinct values in ascending order.
\<close>

definition py_slice :: "'a list \<Rightarrow> int \<Rightarrow> int \<Rightarrow> 'a list" where
  "py_slice row lo hi =
     (let n = length row; a = norm_idx n lo; b = norm_idx n hi in take (b - a) (drop a row))"

definition np_unique :: "int list \<Rightarrow> int list" where
  "np_unique xs = sorted_list_of_set (set xs)"

text \<open>
  The element of \<open>batch_ends_local\<close> for one batch.  The dictionary has a list under
  the key \<^verbatim>\<open>"files"\<close> and, under every file name, a dictionary with the lists
  \<^verbatim>\<open>"Datasets"\<close> and \<^verbatim>\<open>"Ends"\<close>; the first is the field \<open>files\<close>, the others are the
  association list \<open>of_file\<close>, updated as \<^verbatim>\<open>dict.update\<close> does.  A data file that is
  itself named \<^verbatim>\<open>files\<close> would share the key of the list and is outside this model.
  \<open>source_dict\<close> gives the \<^verbatim>\<open>"Datasets"\<close> list recorded for a file name.
\<close>

record file_ends =
  Datasets :: "string list"
  Ends :: "(int \<times> int) list"

record batch_ends =
  files :: "string list"
  of_file :: "(string \<times> file_ends) list"

text \<open>
  The two boolean-mask selections of the loops:
  \<^verbatim>\<open>data_pos_holder[(file_pos_holder == file_idx) & (dataset_pos_holder == dataset_idx)]\<close>
  and \<^verbatim>\<open>np.unique(dataset_pos_holder[file_pos_holder == file_idx])\<close>.
\<close>

definition select_data :: "int list \<Rightarrow> int list \<Rightarrow> int list \<Rightarrow> int \<Rightarrow> int \<Rightarrow> int list" where
  "select_data file_pos_holder dataset_pos_holder data_pos_holder file_idx dataset_idx =
     map snd (filter (\<lambda>(fd, l). fd = (file_idx, dataset_idx))
                (zip (zip file_pos_holder dataset_pos_holder) data_pos_holder))"

definition dataset_range_of :: "int list \<Rightarrow> int list \<Rightarrow> int \<Rightarrow> int list" where
  "dataset_range_of file_pos_holder dataset_pos_holder file_idx =
     np_unique (map snd (filter (\<lambda>(f, d). f = file_idx) (zip file_pos_holder dataset_pos_holder)))"

text \<open>
  The loop \<^verbatim>\<open>for dataset_idx in dataset_range\<close>: the name of the dataset is appended to
  \<^verbatim>\<open>"Datasets"\<close>, and the smallest local index of the batch in this dataset and the
  largest plus one to \<^verbatim>\<open>"Ends"\<close>.  \<^verbatim>\<open>np.min\<close> of an empty selection raises.
\<close>

fun ends_of_datasets ::
  "string list \<Rightarrow> int list \<Rightarrow> int list \<Rightarrow> int list \<Rightarrow> int \<Rightarrow> int list \<Rightarrow> file_ends
     \<Rightarrow> error + file_ends" where
  "ends_of_datasets names file_pos_holder dataset_pos_holder data_pos_holder file_idx [] acc = Inr acc"
| "ends_of_datasets names file_pos_holder dataset_pos_holder data_pos_holder file_idx
     (dataset_idx # rest) acc =
     bnd (py_get names dataset_idx) (\<lambda>name.
       let selected = select_data file_pos_holder dataset_pos_holder data_pos_holder file_idx dataset_idx
       in if selected = [] then Inl ValueError
          else
            let tmp_start = Min (set selected); tmp_end = Max (set selected) + 1
            in ends_of_datasets names file_pos_holder dataset_pos_holder data_pos_holder file_idx rest
                 (acc\<lparr>Datasets := Datasets acc @ [name], Ends := Ends acc @ [(tmp_start, tmp_end)]\<rparr>))"

text \<open>
  The loop \<^verbatim>\<open>for file_idx in file_range\<close>.  The entry of the file is created empty and
  filled by the inner loop; \<open>source_dict\<close> is read only inside the inner loop, so a file
  that it does not record raises \<^verbatim>\<open>KeyError\<close> only when the inner loop runs.
\<close>

fun ends_of_files ::
  "string list \<Rightarrow> (string \<Rightarrow> string list option) \<Rightarrow> int list \<Rightarrow> int list \<Rightarrow> int list \<Rightarrow> int list
     \<Rightarrow> batch_ends \<Rightarrow> error + batch_ends" where
  "ends_of_files file_list source_dict file_pos_holder dataset_pos_holder data_pos_holder [] acc = Inr acc"
| "ends_of_files file_list source_dict file_pos_holder dataset_pos_holder data_pos_holder
     (file_idx # rest) acc =
     bnd (py_get file_list file_idx) (\<lambda>file_name.
       let dataset_range = dataset_range_of file_pos_holder dataset_pos_holder file_idx
       in bnd (case source_dict file_name of
                 None \<Rightarrow> (if dataset_range = [] then Inr \<lparr>Datasets = [], Ends = []\<rparr> else Inl KeyError)
               | Some names \<Rightarrow>
                   ends_of_datasets names file_pos_holder dataset_pos_holder data_pos_holder
                     file_idx dataset_range \<lparr>Datasets = [], Ends = []\<rparr>) (\<lambda>entry.
          ends_of_files file_list source_dict file_pos_holder dataset_pos_holder
            data_pos_holder rest
            (acc\<lparr>files := files acc @ [file_name],
                 of_file := AList.update file_name entry (of_file acc)\<rparr>)))"

text \<open>One pass of the loop \<^verbatim>\<open>for batch_idx in range(batch_number)\<close>, and the whole loop.\<close>

definition batch_ends_of ::
  "index_map \<Rightarrow> int \<times> int \<Rightarrow> string list \<Rightarrow> (string \<Rightarrow> string list option) \<Rightarrow> error + batch_ends" where
  "batch_ends_of index_map batch_range file_list source_dict =
     (let global_idx_batch_start = fst batch_range; global_idx_batch_end = snd batch_range;
          file_pos_holder = py_slice (file_row index_map) global_idx_batch_start global_idx_batch_end;
          dataset_pos_holder = py_slice (dataset_row index_map) global_idx_batch_start global_idx_batch_end;
          data_pos_holder = py_slice (local_row index_map) global_idx_batch_start global_idx_batch_end;
          file_range = np_unique file_pos_holder
      in ends_of_files file_list source_dict file_pos_holder dataset_pos_holder data_pos_holder
           file_range \<lparr>files = [], of_file = []\<rparr>)"

fun get_batch_ends ::
  "index_map \<Rightarrow> (int \<times> int) list \<Rightarrow> string list \<Rightarrow> (string \<Rightarrow> string list option)
     \<Rightarrow> error + batch_ends list" where
  "get_batch_ends index_map [] file_list source_dict = Inr []"
| "get_batch_ends index_map (batch_range # ranges) file_list source_dict =
     bnd (batch_ends_of index_map batch_range file_list source_dict) (\<lambda>b.
     bnd (get_batch_ends index_map ranges file_list source_dict) (\<lambda>bs. Inr (b # bs)))"

text \<open>
  The reads that an element of \<open>batch_ends_local\<close> describes, in the order of its files
  and of the datasets of each file: file name, dataset name and the half-open local
  range; and the samples that one read covers.
\<close>

definition reads_of :: "batch_ends \<Rightarrow> (string \<times> string \<times> int \<times> int) list" where
  "reads_of b =
     concat (map (\<lambda>file_name.
        case map_of (of_file b) file_name of
          None \<Rightarrow> []
        | Some e \<Rightarrow> map (\<lambda>(dataset_name, ends). (file_name, dataset_name, ends))
                     (zip (Datasets e) (Ends e))) (files b))"

definition samples_of_read :: "string \<times> string \<times> int \<times> int \<Rightarrow> (string \<times> string \<times> int) list" where
  "samples_of_read r =
     (case r of (file_name, dataset_name, start, end) \<Rightarrow>
        map (\<lambda>l. (file_name, dataset_name, l)) [start..end - 1])"

text \<open>
  The sample at global index \<open>g\<close> as the map names it, and the condition that every
  index of the map has a name: the file names are distinct, every file index is a
  position of \<open>file_list\<close>, and every dataset index a position of the dataset list that
  \<open>source_dict\<close> records for the file.
\<close>

definition sample_at ::
  "index_map \<Rightarrow> string list \<Rightarrow> (string \<Rightarrow> string list option) \<Rightarrow> nat \<Rightarrow> string \<times> string \<times> int" where
  "sample_at h file_list source_dict g =
     (let file_name = file_list ! nat (file_row h ! g)
      in (file_name, the (source_dict file_name) ! nat (dataset_row h ! g), local_row h ! g))"

definition names_cover :: "index_map \<Rightarrow> string list \<Rightarrow> (string \<Rightarrow> string list option) \<Rightarrow> bool" where
  "names_cover h file_list source_dict \<longleftrightarrow>
     distinct file_list
     \<and> (\<forall>g < length (file_row h).
           0 \<le> file_row h ! g \<and> nat (file_row h ! g) < length file_list
           \<and> (\<exists>names. source_dict (file_list ! nat (file_row h ! g)) = Some names
                 \<and> 0 \<le> dataset_row h ! g \<and> nat (dataset_row h ! g) < length names))"

text \<open>
  The entry that the loops build for file \<open>file_idx\<close>: the names of the datasets of the
  batch in this file and, for each, the smallest local index and the largest plus one.
\<close>

definition entry_of ::
  "string list \<Rightarrow> (string \<Rightarrow> string list option) \<Rightarrow> int list \<Rightarrow> int list \<Rightarrow> int list \<Rightarrow> int \<Rightarrow> file_ends" where
  "entry_of file_list source_dict file_pos_holder dataset_pos_holder data_pos_holder file_idx =
     \<lparr>Datasets = map (\<lambda>di. the (source_dict (file_list ! nat file_idx)) ! nat di)
                   (dataset_range_of file_pos_holder dataset_pos_holder file_idx),
      Ends = map (\<lambda>di. (Min (set (select_data file_pos_holder dataset_pos_holder data_pos_holder file_idx di)),
                        Max (set (select_data file_pos_holder dataset_pos_holder data_pos_holder file_idx di)) + 1))
               (dataset_range_of file_pos_holder dataset_pos_holder file_idx)\<rparr>"

text \<open>
  What the claim asks of the element \<open>out\<close> built for the batch \<open>[start, end)\<close>: its reads,
  concatenated in their order, are exactly the samples of the batch in the order of their
  global indices; no read is empty; and there are as many reads as (file, dataset)
  pairs in the batch.
\<close>

definition covers ::
  "index_map \<Rightarrow> string list \<Rightarrow> (string \<Rightarrow> string list option) \<Rightarrow> int \<times> int \<Rightarrow> batch_ends \<Rightarrow> bool" where
  "covers h file_list source_dict batch_range out \<longleftrightarrow>
     concat (map samples_of_read (reads_of out))
       = map (sample_at h file_list source_dict) [nat (fst batch_range)..<nat (snd batch_range)]
     \<and> (\<forall>r \<in> set (reads_of out). fst (snd (snd r)) < snd (snd (snd r)))
     \<and> length (reads_of out)
         = card ((\<lambda>g. (file_row h ! g, dataset_row h ! g))
                   ` {nat (fst batch_range)..<nat (snd batch_range)})"

text \<open>
  Two files: \<^verbatim>\<open>a.h5\<close> with the datasets \<open>x\<close> (2 samples) and \<open>y\<close> (1 sample), and
  \<^verbatim>\<open>b.h5\<close> with the dataset \<open>z\<close> (3 samples); the index map of the six samples.
\<close>

definition example_map :: index_map where
  "example_map = \<lparr>file_row = [0, 0, 0, 1, 1, 1], dataset_row = [0, 0, 1, 0, 0, 0],
                   local_row = [0, 1, 0, 0, 1, 2]\<rparr>"

definition example_files :: "string list" where
  "example_files = [''a.h5'', ''b.h5'']"

definition example_datasets :: "string \<Rightarrow> string list option" where
  "example_datasets name =
     (if name = ''a.h5'' then Some [''x'', ''y'']
      else if name = ''b.h5'' then Some [''z''] else None)"

section \<open>util.py: \_parse\_h5\_data\_list\<close>

text \<open>
  The parser reads the lines of the text file and opens the listed h5 files.  An h5 file
  is modelled by its datasets, name and shape, in the order of \<^verbatim>\<open>h5file.keys()\<close>; the
  file system by the file that \<^verbatim>\<open>h5py.File(address, 'r')\<close> opens, \<open>None\<close> where opening
  raises \<^verbatim>\<open>IOError\<close>.  The text file itself is the list of its lines as
  \<^verbatim>\<open>readlines\<close> returns them.
\<close>

type_synonym h5file = "(string \<times> nat list) list"

type_synonym filesystem = "string \<Rightarrow> h5file option"

text \<open>
  \<open>dict_holder\<close>: the list under \<^verbatim>\<open>"Files"\<close>, the tuple under \<^verbatim>\<open>"shape"\<close> and, under
  every file address, the lists \<^verbatim>\<open>"Datasets"\<close> and \<^verbatim>\<open>"data_num"\<close>.  The two fixed keys
  are fields here; an h5 file whose address is literally \<^verbatim>\<open>Files\<close> or \<^verbatim>\<open>shape\<close> would
  share a key with them and is outside this model (the source works with absolute
  paths).
\<close>

record file_info =
  datasets :: "string list"
  data_num :: "nat list"

record dict_holder =
  Files :: "string list"
  shape :: "nat list"
  info :: "(string \<times> file_info) list"

text \<open>
  \<^verbatim>\<open>x.strip(chars)\<close>: the characters of the given kind are removed at both ends;
  \<^verbatim>\<open>x.strip()\<close> removes white space (the ASCII white space of Python).
\<close>

definition strip_chars :: "(char \<Rightarrow> bool) \<Rightarrow> string \<Rightarrow> string" where
  "strip_chars P x = rev (dropWhile P (rev (dropWhile P x)))"

definition is_space :: "char \<Rightarrow> bool" where
  "is_space c \<longleftrightarrow> c \<in> {CHR '' '', CHR 0x09, CHR 0x0A, CHR 0x0B, CHR 0x0C, CHR 0x0D,
                        CHR 0x1C, CHR 0x1D, CHR 0x1E, CHR 0x1F}"

definition strip_lines :: "string list \<Rightarrow> string list" where
  "strip_lines lines = map (strip_chars is_space) (map (strip_chars (\<lambda>c. c = CHR 0x0A)) lines)"

definition is_file_line :: "string \<Rightarrow> bool" where
  "is_file_line line \<longleftrightarrow> take 5 line = ''File:''"

definition is_dataset_line :: "string \<Rightarrow> bool" where
  "is_dataset_line line \<longleftrightarrow> take 8 line = ''Dataset:''"

text \<open>
  The first loop, over the lines from number \<open>num\<close> on, with the state
  \<open>dict_holder["Files"]\<close>, \<open>file_pos\<close>: a file that cannot be opened raises.
\<close>

fun first_loop ::
  "filesystem \<Rightarrow> string list \<Rightarrow> nat \<Rightarrow> string list \<times> nat list \<Rightarrow> error + string list \<times> nat list" where
  "first_loop fs [] num (file_list, file_pos) = Inr (file_list, file_pos)"
| "first_loop fs (line # rest) num (file_list, file_pos) =
     (if is_file_line line
      then (let address = drop 5 line
            in case fs address of
                 None \<Rightarrow> Inl Exception
               | Some h5file \<Rightarrow> first_loop fs rest (Suc num) (file_list @ [address], file_pos @ [num]))
      else first_loop fs rest (Suc num) (file_list, file_pos))"

text \<open>
  The second loop.  For the file \<open>file_idx\<close> the lines
  \<open>range(file_pos[file_idx], file_pos[file_idx + 1])\<close> are searched for datasets that
  the user specifies; without any, the datasets are the keys of the file.  The indices
  are positions of the lists by the construction of \<open>file_pos\<close> and \<open>file_list\<close>.
\<close>

definition user_datasets :: "string list \<Rightarrow> nat \<Rightarrow> nat \<Rightarrow> string list" where
  "user_datasets lines a b = map (drop 8) (filter is_dataset_line (take (b - a) (drop a lines)))"

fun second_loop ::
  "filesystem \<Rightarrow> string list \<Rightarrow> string list \<Rightarrow> nat list \<Rightarrow> nat list \<Rightarrow> error + string list list" where
  "second_loop fs lines file_list file_pos [] = Inr []"
| "second_loop fs lines file_list file_pos (file_idx # rest) =
     (let specified = user_datasets lines (file_pos ! file_idx) (file_pos ! Suc file_idx)
      in bnd (if specified \<noteq> [] then Inr specified
              else (case fs (file_list ! file_idx) of
                      None \<Rightarrow> Inl IOError
                    | Some h5file \<Rightarrow> Inr (map fst h5file))) (\<lambda>ds.
         bnd (second_loop fs lines file_list file_pos rest) (\<lambda>dss. Inr (ds # dss))))"

text \<open>
  \<^verbatim>\<open>h5file[key]\<close> raises \<^verbatim>\<open>KeyError\<close> for a missing dataset.  The shape of the first
  dataset of the first file without its first axis is the intended shape.
\<close>

definition open_dataset :: "h5file \<Rightarrow> string \<Rightarrow> error + nat list" where
  "open_dataset h5file key = (case map_of h5file key of None \<Rightarrow> Inl KeyError | Some sh \<Rightarrow> Inr sh)"

definition get_shape :: "filesystem \<Rightarrow> string list \<Rightarrow> string list list \<Rightarrow> error + nat list" where
  "get_shape fs file_list dss =
     (case file_list of
        [] \<Rightarrow> Inl IndexError
      | address # _ \<Rightarrow>
          (case fs address of
             None \<Rightarrow> Inl IOError
           | Some h5file \<Rightarrow>
               (case hd dss of
                  [] \<Rightarrow> Inl IndexError
                | key # _ \<Rightarrow> bnd (open_dataset h5file key) (\<lambda>sh. Inr (drop 1 sh)))))"

text \<open>
  The third loop: for every dataset of every file the number of samples is recorded
  (\<^verbatim>\<open>shape[0]\<close> raises for a scalar dataset) and the rest of the shape is compared with
  the intended shape.
\<close>

fun check_datasets :: "h5file \<Rightarrow> nat list \<Rightarrow> string list \<Rightarrow> error + nat list" where
  "check_datasets h5file shp [] = Inr []"
| "check_datasets h5file shp (key # keys) =
     bnd (open_dataset h5file key) (\<lambda>sh.
       case sh of
         [] \<Rightarrow> Inl IndexError
       | n # sample_shape \<Rightarrow>
           if shp \<noteq> sample_shape then Inl Exception
           else bnd (check_datasets h5file shp keys) (\<lambda>nums. Inr (n # nums)))"

fun third_loop ::
  "filesystem \<Rightarrow> nat list \<Rightarrow> (string \<times> string list) list \<Rightarrow> error + (string \<times> file_info) list" where
  "third_loop fs shp [] = Inr []"
| "third_loop fs shp ((file_address, keys) # rest) =
     (case fs file_address of
        None \<Rightarrow> Inl IOError
      | Some h5file \<Rightarrow>
          bnd (check_datasets h5file shp keys) (\<lambda>nums.
          bnd (third_loop fs shp rest) (\<lambda>es.
          Inr ((file_address, \<lparr>datasets = keys, data_num = nums\<rparr>) # es))))"

definition parse_h5_data_list :: "filesystem \<Rightarrow> string list \<Rightarrow> error + dict_holder" where
  "parse_h5_data_list fs raw_lines =
     (let lines = strip_lines raw_lines
      in bnd (first_loop fs lines 0 ([], [])) (\<lambda>(file_list, file_pos).
         if length (remdups file_list) \<noteq> length file_list then Inl Exception
         else
           let file_pos' = file_pos @ [length lines]
           in bnd (second_loop fs lines file_list file_pos' [0..<length file_list]) (\<lambda>dss.
              bnd (get_shape fs file_list dss) (\<lambda>shp.
              bnd (third_loop fs shp (zip file_list dss)) (\<lambda>es.
              Inr \<lparr>Files = file_list, shape = shp, info = es\<rparr>)))))"

text \<open>
  The input as the claim reads it.  The stripped lines list files, each with the
  datasets that the user names before the next file; the datasets to process are these
  or, without any, all datasets of the file.
\<close>

fun sections :: "string list \<Rightarrow> (string \<times> string list) list" where
  "sections [] = []"
| "sections (line # rest) =
     (if is_file_line line
      then (drop 5 line,
            map (drop 8) (filter is_dataset_line (takeWhile (\<lambda>x. \<not> is_file_line x) rest)))
           # sections rest
      else sections rest)"

definition datasets_to_process :: "filesystem \<Rightarrow> string \<times> string list \<Rightarrow> string list" where
  "datasets_to_process fs sec =
     (if snd sec \<noteq> [] then snd sec
      else (case fs (fst sec) of None \<Rightarrow> [] | Some h5file \<Rightarrow> map fst h5file))"

definition shape_of :: "filesystem \<Rightarrow> string \<Rightarrow> string \<Rightarrow> nat list option" where
  "shape_of fs address key = (case fs address of None \<Rightarrow> None | Some h5file \<Rightarrow> map_of h5file key)"

definition first_shape :: "filesystem \<Rightarrow> (string \<times> string list) list \<Rightarrow> nat list option" where
  "first_shape fs secs =
     (case secs of
        [] \<Rightarrow> None
      | sec # _ \<Rightarrow>
          (case datasets_to_process fs sec of
             [] \<Rightarrow> None
           | key # _ \<Rightarrow> map_option (drop 1) (shape_of fs (fst sec) key)))"

text \<open>
  The three failures of the claim: a listed file cannot be opened; a path is listed
  twice; a listed dataset has a per-sample shape other than that of the first dataset of
  the first file.
\<close>

definition missing_file :: "filesystem \<Rightarrow> (string \<times> string list) list \<Rightarrow> bool" where
  "missing_file fs secs \<longleftrightarrow> list_ex (\<lambda>sec. fs (fst sec) = None) secs"

definition duplicate_file :: "(string \<times> string list) list \<Rightarrow> bool" where
  "duplicate_file secs \<longleftrightarrow> \<not> distinct (map fst secs)"

definition shape_differs :: "filesystem \<Rightarrow> (string \<times> string list) list \<Rightarrow> bool" where
  "shape_differs fs secs \<longleftrightarrow>
     list_ex (\<lambda>sec. list_ex (\<lambda>key.
        case (shape_of fs (fst sec) key, first_shape fs secs) of
          (Some sh, Some shp) \<Rightarrow> drop 1 sh \<noteq> shp
        | _ \<Rightarrow> False) (datasets_to_process fs sec)) secs"

text \<open>
  A valid input: at least one file is listed, the listed files are distinct and can be
  opened, the first file has a dataset to process, and every dataset to process exists,
  has a first axis and has the per-sample shape of the first one.
\<close>

definition valid_input :: "filesystem \<Rightarrow> (string \<times> string list) list \<Rightarrow> bool" where
  "valid_input fs secs \<longleftrightarrow>
     distinct (map fst secs)
     \<and> list_all (\<lambda>sec. fs (fst sec) \<noteq> None) secs
     \<and> (case first_shape fs secs of
          None \<Rightarrow> False
        | Some shp \<Rightarrow>
            list_all (\<lambda>sec. list_all (\<lambda>key.
              case shape_of fs (fst sec) key of
                Some (n # sample_shape) \<Rightarrow> sample_shape = shp
              | _ \<Rightarrow> False) (datasets_to_process fs sec)) secs)"

text \<open>
  Two h5 files for the examples: \<^verbatim>\<open>/d/a.h5\<close> with the datasets \<open>x\<close> and \<open>y\<close> of
  \<open>4 \<times> 8 \<times> 8\<close> and \<open>2 \<times> 8 \<times> 8\<close>, and \<^verbatim>\<open>/d/b.h5\<close> with the dataset \<open>z\<close> of \<open>3 \<times> 8 \<times> 9\<close>.
\<close>

definition example_fs :: filesystem where
  "example_fs address =
     (if address = ''/d/a.h5'' then Some [(''x'', [4, 8, 8]), (''y'', [2, 8, 8])]
      else if address = ''/d/b.h5'' then Some [(''z'', [3, 8, 9])]
      else None)"

text \<open>The numbers of the file lines among the lines from number \<open>num\<close> on.\<close>

fun file_positions :: "string list \<Rightarrow> nat \<Rightarrow> nat list" where
  "file_positions [] num = []"
| "file_positions (line # rest) num =
     (if is_file_line line then num # file_positions rest (Suc num)
      else file_positions rest (Suc num))"

text \<open>
  Two text files: the first lists \<^verbatim>\<open>/d/a.h5\<close> with its dataset \<open>y\<close>; the second lists
  both files with all their datasets.
\<close>

definition example_list :: "string list" where
  "example_list = [''File:/d/a.h5'' @ [CHR 0x0A], ''Dataset:y'' @ [CHR 0x0A], '' '']"

definition example_list_mixed :: "string list" where
  "example_list_mixed = [''File:/d/a.h5'' @ [CHR 0x0A], '' '' @ [CHR 0x0A], ''File:/d/b.h5'']"

section \<open>WeightMat.py: the diagonal stage and the distance patch\<close>

text \<open>
  Line 129, \<^verbatim>\<open>inner_prod_matrix[np.tril_indices(n=data_num, m=data_num, k=0)] = -10\<close>:
  the entries \<open>(i, j)\<close> with \<open>j \<le> i < data_number\<close> become \<open>-10\<close>.  An index outside
  the matrix raises \<^verbatim>\<open>IndexError\<close>.
\<close>

definition mask_lower :: "nat \<Rightarrow> real list list \<Rightarrow> error + real list list" where
  "mask_lower data_number inner_prod_matrix =
     (if data_number \<le> length inner_prod_matrix
         \<and> list_all (\<lambda>row. data_number \<le> length row) inner_prod_matrix
      then Inr (map (\<lambda>i. map (\<lambda>j. if j \<le> i \<and> i < data_number then - 10
                                    else inner_prod_matrix ! i ! j)
                           [0..<length (inner_prod_matrix ! i)])
                [0..<length inner_prod_matrix])
      else Inl IndexError)"

text \<open>
  Lines 139--147 on one row of the masked matrix: the positions of the top values, the
  values read at them, and the positions shifted by the first global index of the batch.
  A kept row is the pair of \<open>idx_to_keep_dim0[i]\<close> and \<open>val_to_keep[i]\<close>.
\<close>

type_synonym topk_row = "int list \<times> real list"

definition seed_row :: "nat \<Rightarrow> int \<Rightarrow> real list \<Rightarrow> error + topk_row" where
  "seed_row neighbor_number batch_ends row =
     (let idx_pre_dim0 = top_positions neighbor_number row
      in bnd (get_values row idx_pre_dim0) (\<lambda>val_to_keep.
           Inr (map (\<lambda>p. int p + batch_ends) idx_pre_dim0, val_to_keep)))"

text \<open>A fallible step done on every row, top to bottom; the first error ends it.\<close>

fun for_rows :: "('a \<Rightarrow> error + 'b) \<Rightarrow> 'a list \<Rightarrow> error + 'b list" where
  "for_rows f [] = Inr []"
| "for_rows f (x # xs) = bnd (f x) (\<lambda>y. bnd (for_rows f xs) (\<lambda>ys. Inr (y # ys)))"

definition diagonal_seed :: "nat \<Rightarrow> nat \<Rightarrow> int \<Rightarrow> real list list \<Rightarrow> error + topk_row list" where
  "diagonal_seed data_number neighbor_number batch_ends inner_prod_matrix =
     bnd (mask_lower data_number inner_prod_matrix) (for_rows (seed_row neighbor_number batch_ends))"

text \<open>
  Step Four in a worker (lines 194--325), by the number of bins of its row.  With a bin to
  scan, the loop body reaches line 220 and reads \<^verbatim>\<open>batch_idx_on_dim0\<close>, a name that no line
  of the program assigns: \<^verbatim>\<open>NameError\<close>.  Without one the loop is skipped and line 324
  reads \<^verbatim>\<open>row_idx_to_keep\<close>, which only the master's branch assigns (line 164): \<^verbatim>\<open>NameError\<close>
  again.  The merge of lines 296--311 and the two writes of lines 324--325 are never
  reached.
\<close>

definition off_diagonal_stage :: "nat \<Rightarrow> error + topk_row list" where
  "off_diagonal_stage bin_number =
     (case bin_number of
        Suc n \<Rightarrow> Inl NameError
      | 0 \<Rightarrow> Inl NameError)"

text \<open>
  A worker from the masked matrix on: the diagonal stage, whose selection stays in
  \<^verbatim>\<open>idx_to_keep_dim0\<close> and \<^verbatim>\<open>val_to_keep\<close>, then Step Four.  The value is what the worker writes
  as \<^verbatim>\<open>row_index\<close> and \<^verbatim>\<open>row_values\<close>.
\<close>

definition distance_patch ::
  "nat \<Rightarrow> nat \<Rightarrow> int \<Rightarrow> real list list \<Rightarrow> nat \<Rightarrow> error + topk_row list" where
  "distance_patch data_number neighbor_number batch_ends inner_prod_matrix bin_number =
     bnd (diagonal_seed data_number neighbor_number batch_ends inner_prod_matrix)
         (\<lambda>kept. off_diagonal_stage bin_number)"

text \<open>The correlations of three samples in one batch.\<close>

definition example_matrix :: "real list list" where
  "example_matrix = [[1, 1/2, 1/3], [1/2, 1, 1/4], [1/3, 1/4, 1]]"

section \<open>Batch sizes\<close>

lemma get_batch_num_list_eq:
  assumes "1 \<le> batch_num" and "in_int64 total_num" and "in_int64 batch_num"
  shows "get_batch_num_list total_num batch_num =
         Inr (replicate (nat (total_num mod batch_num)) (total_num div batch_num + 1) @
              replicate (nat (batch_num - total_num mod batch_num)) (total_num div batch_num))"
proof -
  define r where "r = total_num mod batch_num"
  have r: "0 \<le> r" "r < batch_num" using assms(1) by (simp_all add: r_def)
  have "in_int64 r" "in_int64 (batch_num - r)"
    using r assms(3) by (simp_all add: in_int64_def)
  then show ?thesis
    using assms r
    by (simp add: get_batch_num_list_def np_mod_def is_nonzero_def floordiv_def repeat_def
        bnd_def r_def [symmetric])
qed

lemma ceil_div:
  fixes a b :: int
  assumes "1 \<le> b" "a mod b \<noteq> 0"
  shows "\<lceil>real_of_int a / real_of_int b\<rceil> = a div b + 1"
proof -
  have fl: "\<lfloor>real_of_int a / real_of_int b\<rfloor> = a div b"
    by (simp add: floor_divide_of_int_eq)
  have "real_of_int a / real_of_int b \<noteq> real_of_int (a div b)"
  proof
    assume "real_of_int a / real_of_int b = real_of_int (a div b)"
    then have "real_of_int a = real_of_int (a div b) * real_of_int b"
      using assms(1) by (simp add: field_simps)
    then have "a = (a div b) * b" by (metis of_int_eq_iff of_int_mult)
    then show False using assms(2) by (metis mod_mult_self2_is_0)
  qed
  then show ?thesis
    using fl by (simp add: ceiling_altdef)
qed

text \<open>
  Claim C5 has \<open>get_batch_num_list\<close> return the list for every \<open>total_num \<ge> 1\<close> and
  \<open>batch_num \<ge> 1\<close>.  At \<open>total_num = 2^63\<close> and \<open>batch_num = 3\<close> the remainder is the
  \<^verbatim>\<open>float64\<close> 2, and repeating a list that many times raises \<^verbatim>\<open>TypeError\<close>.
\<close>

theorem get_batch_num_list_float_counterexample:
  "(1::int) \<le> 9223372036854775808 \<and> (1::int) \<le> 3
   \<and> get_batch_num_list 9223372036854775808 3 = Inl TypeError"
  by code_simp

text \<open>
  Claim C5, amended.  For \<open>1 \<le> total_num < 2^63\<close> and \<open>1 \<le> batch_num < 2^63\<close>,
  \<open>get_batch_num_list\<close> returns a list of \<open>batch_num\<close> non-negative integers that sums to
  \<open>total_num\<close>; its first \<open>total_num mod batch_num\<close> elements are the ceiling of
  \<open>total_num / batch_num\<close>, the others its floor, so the largest and the smallest element
  differ by at most 1.
\<close>

theorem get_batch_num_list_split:
  assumes "1 \<le> total_num" and "1 \<le> batch_num"
    and "total_num < 2 ^ 63" and "batch_num < 2 ^ 63"
  shows "\<exists>xs. get_batch_num_list total_num batch_num = Inr xs
           \<and> length xs = nat batch_num
           \<and> (\<forall>x \<in> set xs. 0 \<le> x)
           \<and> sum_list xs = total_num
           \<and> (\<forall>i < nat (total_num mod batch_num).
                 xs ! i = \<lceil>real_of_int total_num / real_of_int batch_num\<rceil>)
           \<and> (\<forall>i. nat (total_num mod batch_num) \<le> i \<and> i < nat batch_num \<longrightarrow>
                 xs ! i = \<lfloor>real_of_int total_num / real_of_int batch_num\<rfloor>)
           \<and> Max (set xs) - Min (set xs) \<le> 1"
proof -
  define r where "r = total_num mod batch_num"
  define q where "q = total_num div batch_num"
  define xs where "xs = replicate (nat r) (q + 1) @ replicate (nat (batch_num - r)) q"
  have r: "0 \<le> r" "r < batch_num" using assms by (simp_all add: r_def)
  have q: "0 \<le> q" using assms by (simp add: q_def pos_imp_zdiv_nonneg_iff)
  have "in_int64 total_num" "in_int64 batch_num"
    using assms by (simp_all add: in_int64_def)
  then have eq: "get_batch_num_list total_num batch_num = Inr xs"
    using get_batch_num_list_eq [OF assms(2)] by (simp add: xs_def r_def q_def)
  have len: "length xs = nat batch_num" using r by (simp add: xs_def)
  have nonneg: "\<forall>x \<in> set xs. 0 \<le> x" using q by (auto simp: xs_def)
  have "sum_list xs = r * (q + 1) + (batch_num - r) * q"
    using r by (simp add: xs_def sum_list_replicate)
  also have "\<dots> = batch_num * q + r" by (simp add: algebra_simps)
  also have "\<dots> = total_num" by (simp add: q_def r_def)
  finally have total: "sum_list xs = total_num" .
  have fl: "\<lfloor>real_of_int total_num / real_of_int batch_num\<rfloor> = q"
    by (simp add: q_def floor_divide_of_int_eq)
  have first: "\<forall>i < nat r. xs ! i = \<lceil>real_of_int total_num / real_of_int batch_num\<rceil>"
  proof (intro allI impI)
    fix i assume i: "i < nat r"
    then have "r \<noteq> 0" by auto
    then have "\<lceil>real_of_int total_num / real_of_int batch_num\<rceil> = q + 1"
      using ceil_div [OF assms(2)] by (simp add: r_def q_def)
    moreover have "xs ! i = q + 1" using i by (simp add: xs_def nth_append)
    ultimately show "xs ! i = \<lceil>real_of_int total_num / real_of_int batch_num\<rceil>" by simp
  qed
  have rest: "\<forall>i. nat r \<le> i \<and> i < nat batch_num \<longrightarrow>
                 xs ! i = \<lfloor>real_of_int total_num / real_of_int batch_num\<rfloor>"
    using r by (auto simp: xs_def nth_append fl)
  have ne: "set xs \<noteq> {}" using len assms(2) by auto
  have "set xs \<subseteq> {q, q + 1}" by (auto simp: xs_def)
  then have "Max (set xs) \<le> q + 1" "q \<le> Min (set xs)"
    using ne by auto
  then have spread: "Max (set xs) - Min (set xs) \<le> 1" by simp
  show ?thesis
    using eq len nonneg total first rest spread unfolding r_def by blast
qed

theorem get_batch_num_list_split_witness:
  "(1::int) \<le> 7 \<and> (1::int) \<le> 3 \<and> (7::int) < 2 ^ 63 \<and> (3::int) < 2 ^ 63 \<and>
   (\<exists>xs. get_batch_num_list 7 3 = Inr xs \<and> length xs = 3 \<and> sum_list xs = 7
       \<and> Max (set xs) - Min (set xs) \<le> 1)"
  using get_batch_num_list_split [of 7 3] by auto

section \<open>The scan lists of get\_batch\_idx\_per\_list\<close>

lemma arange_length: "length (arange a b) = nat (b - a)"
  by (simp add: arange_def)

lemma arange_Cons: "a < b \<Longrightarrow> arange a b = a # arange (a + 1) b"
  by (simp add: arange_def upto_rec1)

lemma get_batch_idx_per_list_raises:
  assumes "3 \<le> batch_num"
  shows "get_batch_idx_per_list batch_num = Inl ValueError"
proof -
  define n where "n = nat batch_num - 1"
  define z where "z = replicate (nat batch_num) (replicate n (0::int))"
  have n: "2 \<le> n" "nat (batch_num - 1) = n" "nat batch_num = Suc n"
    using assms by (simp_all add: n_def)
  have lz: "length z = Suc n" by (simp add: z_def n)
  have s1: "set_row_slice z 0 None None (arange 1 batch_num) = Inr (z[0 := arange 1 batch_num])"
    using n assms
    by (simp add: set_row_slice_def Let_def assign_slice_def slice_lo_def slice_hi_def bnd_def
        arange_length lz z_def)
  define h1 where "h1 = z[0 := arange 1 batch_num]"
  have lh1: "length h1 = Suc n" by (simp add: h1_def lz)
  have "h1 ! n = z ! n" using n by (simp add: h1_def)
  then have rh1: "length (h1 ! n) = n" using n by (simp add: z_def)
  have s2: "set_row_slice h1 (batch_num - 1) None None (arange 0 (batch_num - 1))
            = Inr (h1[n := arange 0 (batch_num - 1)])"
    using n assms
    by (simp add: set_row_slice_def Let_def assign_slice_def slice_lo_def slice_hi_def bnd_def
        arange_length lh1 rh1)
  define h2 where "h2 = h1[n := arange 0 (batch_num - 1)]"
  have lh2: "length h2 = Suc n" by (simp add: h2_def lh1)
  have "h2 ! 1 = z ! 1" using n by (simp add: h2_def h1_def)
  then have rh2: "length (h2 ! Suc 0) = n" using n by (simp add: z_def)
  have s3: "set_row_slice h2 1 None (Some 1) (arange 0 1) = Inr (h2[1 := 0 # drop (Suc 0) (h2 ! Suc 0)])"
    using n
    by (simp add: set_row_slice_def Let_def assign_slice_def slice_lo_def slice_hi_def norm_idx_def
        bnd_def arange_def lh2 rh2 upto_rec1)
  define h3 where "h3 = h2[1 := 0 # drop (Suc 0) (h2 ! Suc 0)]"
  have lh3: "length h3 = Suc n" by (simp add: h3_def lh2)
  have rh3: "length (h3 ! Suc 0) = n" using n by (simp add: h3_def lh2 rh2)
  have s4: "set_row_slice h3 1 (Some 1) None (arange 1 batch_num) = Inl ValueError"
    using n assms
    by (simp add: set_row_slice_def Let_def assign_slice_def slice_lo_def slice_hi_def norm_idx_def
        bnd_def arange_length lh3 rh3)
  have loop: "arange 1 (batch_num - 1) = 1 # arange 2 (batch_num - 1)"
    using assms arange_Cons [of 1 "batch_num - 1"] by simp
  have "fill_rows batch_num (arange 1 (batch_num - 1)) h2 = Inl ValueError"
    using s3 s4 by (simp add: loop bnd_def h3_def)
  then show ?thesis
    using assms s1 s2 n
    by (simp add: get_batch_idx_per_list_def Let_def bnd_def z_def h1_def h2_def)
qed

lemma get_batch_idx_per_list_two: "get_batch_idx_per_list 2 = Inr [[1], [0]]"
  by code_simp

lemma get_batch_idx_per_list_one: "get_batch_idx_per_list 1 = Inr [[]]"
  by code_simp

text \<open>
  Claim C1 says that of the two rows \<open>l\<close> and \<open>m\<close> exactly one contains the other index.
  At \<open>batch_num = 2\<close> the array is \<open>[[1], [0]]\<close>: row 0 contains 1 and row 1 contains 0,
  so the pair \<open>{0, 1}\<close> is listed by both of its workers.
\<close>

theorem pair_scanned_once_counterexample:
  "get_batch_idx_per_list 2 = Inr [[1], [0]] \<and> scans [[1], [0]] 0 1 \<and> scans [[1], [0]] 1 0"
  by (simp add: get_batch_idx_per_list_two scans_def)

text \<open>
  Claim C1, amended.  Whenever \<open>get_batch_idx_per_list\<close> returns an array, every two
  distinct batch indices \<open>l\<close> and \<open>m\<close> occur in each other's row: every unordered
  batch pair is listed twice, once by each of its two workers.
\<close>

theorem pair_scanned_by_both:
  assumes "get_batch_idx_per_list batch_num = Inr holder"
    and "0 \<le> l" and "l < batch_num" and "0 \<le> m" and "m < batch_num" and "l \<noteq> m"
  shows "scans holder l m \<and> scans holder m l"
proof -
  have "\<not> 3 \<le> batch_num"
    using assms(1) get_batch_idx_per_list_raises [of batch_num] by auto
  then have "batch_num = 2" using assms by linarith
  then have h: "holder = [[1], [0]]"
    using assms(1) get_batch_idx_per_list_two by simp
  have "(l = 0 \<and> m = 1) \<or> (l = 1 \<and> m = 0)"
    using assms \<open>batch_num = 2\<close> by linarith
  then show ?thesis by (auto simp: h scans_def)
qed

theorem pair_scanned_by_both_witness:
  "get_batch_idx_per_list 2 = Inr [[1], [0]] \<and> (0::int) < 2 \<and> (1::int) < 2 \<and> (0::int) \<noteq> 1
   \<and> scans [[1], [0]] 0 1 \<and> scans [[1], [0]] 1 0"
  using pair_scanned_by_both [of 2 "[[1], [0]]" 0 1] get_batch_idx_per_list_two by simp

text \<open>
  Claim C2 asks that row \<open>l\<close> holds every batch index but \<open>l\<close>, for every
  \<open>batch_num \<ge> 2\<close>.  At \<open>batch_num = 3\<close> the loop writes
  \<^verbatim>\<open>holder[1, 1:] = np.arange(1, 3)\<close>, two values into a slice of one element, and
  the call raises instead of returning an array.
\<close>

theorem get_batch_idx_per_list_three: "get_batch_idx_per_list 3 = Inl ValueError"
  by code_simp


section \<open>Assembly: missing and misshapen patches\<close>

lemma set_arange: "set (arange a b) = {a..<b}"
  by (auto simp: arange_def)

lemma bnd_Inr_iff: "bnd m f = Inr y \<longleftrightarrow> (\<exists>x. m = Inr x \<and> f x = Inr y)"
  by (cases m) (simp_all add: bnd_def)

lemma bnd_Inl: "bnd (Inl e) f = Inl e"
  by (simp add: bnd_def)

lemma bnd_Inr: "bnd (Inr x) f = f x"
  by (simp add: bnd_def)

lemma not_Inr_is_Inl: "(\<forall>y. r \<noteq> Inr y) \<Longrightarrow> \<exists>e. r = Inl e"
  by (cases r) auto

lemma all_patches_exist_iff:
  "all_patches_exist folder n \<longleftrightarrow>
     (\<forall>l m. 0 \<le> l \<and> l \<le> m \<and> m < n \<longrightarrow> patch_file folder (l, m) \<noteq> None)"
  by (auto simp: all_patches_exist_def list_all_iff set_arange)

lemma assemble_row_Cons_Inr:
  assumes "assemble_row ds folder l s0 e0 (m # ms) H s1 = Inr H'"
  shows "\<exists>p H1. patch_file folder (l, m) = Some p \<and> fits ds l m p
           \<and> assign_block H s0 e0 s1 (s1 + int (shape1 p)) p = Inr H1
           \<and> assemble_row ds folder l s0 e0 ms H1 (s1 + int (shape1 p)) = Inr H'"
  using assms
  by (auto simp: bnd_Inr_iff fits_def Let_def split: option.splits if_splits)

lemma assemble_row_mismatch:
  assumes "m \<in> set ms" and "patch_file folder (l, m) = Some p" and "\<not> fits ds l m p"
  shows "\<exists>e. assemble_row ds folder l s0 e0 ms H s1 = Inl e"
  using assms(1)
proof (induction ms arbitrary: H s1)
  case Nil
  then show ?case by simp
next
  case (Cons a ms)
  show ?case
  proof (rule not_Inr_is_Inl, intro allI notI)
    fix H' assume ok: "assemble_row ds folder l s0 e0 (a # ms) H s1 = Inr H'"
    from assemble_row_Cons_Inr [OF ok] obtain q H1 where
      q: "patch_file folder (l, a) = Some q" "fits ds l a q"
      and rest: "assemble_row ds folder l s0 e0 ms H1 (s1 + int (shape1 q)) = Inr H'"
      by blast
    have "a \<noteq> m" using q assms(2,3) by auto
    then have "m \<in> set ms" using Cons.prems by simp
    from Cons.IH [OF this] rest show False by (metis sum.distinct(1))
  qed
qed

lemma assemble_rows_Cons_Inr:
  assumes "assemble_rows ds folder (l # ls) H s0 = Inr H'"
  shows "\<exists>b H1. py_get (batch_size_list ds) l = Inr b
           \<and> assemble_row ds folder l s0 (s0 + b) (arange l (batch_number ds)) H s0 = Inr H1
           \<and> assemble_rows ds folder ls H1 (s0 + b) = Inr H'"
  using assms by (auto simp: bnd_Inr_iff Let_def)

lemma assemble_rows_mismatch:
  assumes "l \<in> set ls" and "m \<in> set (arange l (batch_number ds))"
    and "patch_file folder (l, m) = Some p" and "\<not> fits ds l m p"
  shows "\<exists>e. assemble_rows ds folder ls H s0 = Inl e"
  using assms(1)
proof (induction ls arbitrary: H s0)
  case Nil
  then show ?case by simp
next
  case (Cons a ls)
  show ?case
  proof (rule not_Inr_is_Inl, intro allI notI)
    fix H' assume ok: "assemble_rows ds folder (a # ls) H s0 = Inr H'"
    from assemble_rows_Cons_Inr [OF ok] obtain b H1 where
      row: "assemble_row ds folder a s0 (s0 + b) (arange a (batch_number ds)) H s0 = Inr H1"
      and rest: "assemble_rows ds folder ls H1 (s0 + b) = Inr H'"
      by blast
    have "a \<noteq> l"
    proof
      assume "a = l"
      then have "assemble_row ds folder l s0 (s0 + b) (arange l (batch_number ds)) H s0 = Inr H1"
        using row by simp
      then show False
        using assemble_row_mismatch [OF assms(2,3,4)] by (metis sum.distinct(1))
    qed
    then have "l \<in> set ls" using Cons.prems by simp
    from Cons.IH [OF this] rest show False by (metis sum.distinct(1))
  qed
qed

text \<open>
  Claim C9.  \<open>assemble_mat\<close> raises, and returns no matrix, whenever a patch file
  \<^verbatim>\<open>patch_l_m.npy\<close> with \<open>0 \<le> l \<le> m < batch_num\<close> is absent, or a loaded patch has a
  shape other than \<open>(batch_size_list[l], batch_size_list[m])\<close>.
\<close>

theorem assemble_mat_incomplete_raises:
  assumes "0 \<le> l" and "l \<le> m" and "m < batch_number ds"
    and "patch_file folder (l, m) = None
         \<or> (\<exists>p. patch_file folder (l, m) = Some p \<and> \<not> fits ds l m p)"
  shows "\<exists>e. assemble_mat ds folder = Inl e"
proof (cases "patch_file folder (l, m)")
  case None
  then have "\<not> all_patches_exist folder (batch_number ds)"
    using assms(1,2,3) by (auto simp: all_patches_exist_iff)
  then show ?thesis by (simp add: assemble_mat_def Let_def)
next
  case (Some p)
  then have bad: "\<not> fits ds l m p" using assms(4) by auto
  have l: "l \<in> set (arange 0 (batch_number ds))" and m: "m \<in> set (arange l (batch_number ds))"
    using assms(1,2,3) by (simp_all add: set_arange)
  obtain e where "assemble_rows ds folder (arange 0 (batch_number ds))
       (replicate (nat (pattern_number_total ds)) (replicate (nat (pattern_number_total ds)) 0)) 0 = Inl e"
    using assemble_rows_mismatch [OF l m Some bad] by blast
  then show ?thesis by (auto simp: assemble_mat_def Let_def)
qed


theorem assemble_mat_incomplete_raises_witness:
  "(0::int) \<le> 0 \<and> (0::int) \<le> 1 \<and> 1 < batch_number example_source
   \<and> (\<exists>p. patch_file example_folder_bad (0, 1) = Some p \<and> \<not> fits example_source 0 1 p)
   \<and> (\<exists>e. assemble_mat example_source example_folder_bad = Inl e)"
proof -
  have bad: "\<exists>p. patch_file example_folder_bad (0, 1) = Some p \<and> \<not> fits example_source 0 1 p"
    by (simp add: example_folder_bad_def example_source_def fits_def py_get_def)
  have n: "1 < batch_number example_source" by (simp add: example_source_def)
  show ?thesis
    using assemble_mat_incomplete_raises [of 0 1 example_source example_folder_bad] bad n
    by simp
qed

section \<open>Assembly: the lower blocks stay zero\<close>

lemma norm_idx_nonneg: "0 \<le> x \<Longrightarrow> norm_idx n x = min n (nat x)"
  by (simp add: norm_idx_def)

lemma assign_block_frame:
  assumes "assign_block H r0 r1 c0 c1 p = Inr H'" and "0 \<le> r0" and "0 \<le> r1" and "0 \<le> c0"
  shows "map length H' = map length H"
    and "\<And>i j. i < length H \<Longrightarrow> j < length (H ! i) \<Longrightarrow>
            int i < r0 \<or> r1 \<le> int i \<or> int j < c0 \<Longrightarrow> H' ! i ! j = H ! i ! j"
proof -
  define n where "n = length H"
  define f where "f = (\<lambda>i j. if norm_idx n r0 \<le> i \<and> i < norm_idx n r1
                   \<and> norm_idx (length (H ! i)) c0 \<le> j \<and> j < norm_idx (length (H ! i)) c1
                then entry p (if shape0 p = 1 then 0 else i - norm_idx n r0)
                       (if shape1 p = 1 then 0 else j - norm_idx (ncols H) c0)
                else H ! i ! j)"
  have H': "H' = map (\<lambda>i. map (f i) [0..<length (H ! i)]) [0..<n]"
    using assms(1) by (auto simp: assign_block_def Let_def n_def f_def split: if_splits)
  show "map length H' = map length H"
    by (auto simp: H' n_def intro: nth_equalityI)
  fix i j assume i: "i < length H" and j: "j < length (H ! i)"
    and out: "int i < r0 \<or> r1 \<le> int i \<or> int j < c0"
  have "H' ! i ! j = f i j" using i j by (simp add: H' n_def)
  moreover have "f i j = H ! i ! j"
    using out assms(2,3,4) i j by (auto simp: f_def norm_idx_nonneg)
  ultimately show "H' ! i ! j = H ! i ! j" by simp
qed

lemma same_shape_nth:
  assumes "map length H' = map length H"
  shows "length H' = length H" and "i < length H \<Longrightarrow> length (H' ! i) = length (H ! i)"
proof -
  show l: "length H' = length H" using assms by (metis length_map)
  assume "i < length H"
  then show "length (H' ! i) = length (H ! i)"
    using assms l by (metis nth_map)
qed

lemma assemble_row_frame:
  assumes "assemble_row ds folder l s0 e0 ms H s1 = Inr H'" and "0 \<le> s0" and "0 \<le> e0" and "0 \<le> s1"
  shows "map length H' = map length H \<and>
         (\<forall>i j. i < length H \<longrightarrow> j < length (H ! i) \<longrightarrow>
                int i < s0 \<or> e0 \<le> int i \<or> int j < s1 \<longrightarrow> H' ! i ! j = H ! i ! j)"
  using assms(1,4)
proof (induction ms arbitrary: H s1)
  case Nil
  then show ?case by simp
next
  case (Cons m ms)
  from assemble_row_Cons_Inr [OF Cons.prems(1)] obtain p H1 where
    blk: "assign_block H s0 e0 s1 (s1 + int (shape1 p)) p = Inr H1"
    and rest: "assemble_row ds folder l s0 e0 ms H1 (s1 + int (shape1 p)) = Inr H'"
    by blast
  note fr = assign_block_frame [OF blk assms(2,3) Cons.prems(2)]
  note sh = same_shape_nth [OF fr(1)]
  have ih: "map length H' = map length H1 \<and>
         (\<forall>i j. i < length H1 \<longrightarrow> j < length (H1 ! i) \<longrightarrow>
                int i < s0 \<or> e0 \<le> int i \<or> int j < s1 + int (shape1 p) \<longrightarrow> H' ! i ! j = H1 ! i ! j)"
    using Cons.IH [OF rest] Cons.prems(2) by simp
  show ?case
  proof (intro conjI allI impI)
    show "map length H' = map length H" using ih fr(1) by simp
  next
    fix i j assume i: "i < length H" and j: "j < length (H ! i)"
      and out: "int i < s0 \<or> e0 \<le> int i \<or> int j < s1"
    have "H' ! i ! j = H1 ! i ! j"
      using ih i j out sh by auto
    also have "\<dots> = H ! i ! j" using fr(2) [OF i j out] .
    finally show "H' ! i ! j = H ! i ! j" .
  qed
qed

lemma assemble_rows_step:
  assumes "assemble_rows ds folder (l # ls) H s0 = Inr H'" and "l < batch_number ds"
  shows "\<exists>H1. 0 \<le> size_of ds l \<and> py_get (batch_size_list ds) l = Inr (size_of ds l)
           \<and> assemble_row ds folder l s0 (s0 + size_of ds l) (arange l (batch_number ds)) H s0 = Inr H1
           \<and> assemble_rows ds folder ls H1 (s0 + size_of ds l) = Inr H'"
proof -
  from assemble_rows_Cons_Inr [OF assms(1)] obtain b H1 where
    b: "py_get (batch_size_list ds) l = Inr b"
    and row: "assemble_row ds folder l s0 (s0 + b) (arange l (batch_number ds)) H s0 = Inr H1"
    and rest: "assemble_rows ds folder ls H1 (s0 + b) = Inr H'"
    by blast
  have "assemble_row ds folder l s0 (s0 + b) (l # arange (l + 1) (batch_number ds)) H s0 = Inr H1"
    using row arange_Cons [OF assms(2)] by simp
  from assemble_row_Cons_Inr [OF this] obtain p where "fits ds l l p" by blast
  then have "0 \<le> b" using b by (simp add: fits_def)
  moreover have "size_of ds l = b" using b by (simp add: size_of_def)
  ultimately show ?thesis using b row rest by auto
qed

lemma assemble_rows_frame:
  assumes "assemble_rows ds folder ls H s0 = Inr H'" and "0 \<le> s0"
    and "\<forall>l \<in> set ls. l < batch_number ds"
  shows "map length H' = map length H \<and>
         (\<forall>i j. i < length H \<longrightarrow> j < length (H ! i) \<longrightarrow>
                int i < s0 \<or> int j < s0 \<longrightarrow> H' ! i ! j = H ! i ! j)"
  using assms
proof (induction ls arbitrary: H s0)
  case Nil
  then show ?case by simp
next
  case (Cons l ls)
  have l: "l < batch_number ds" using Cons.prems(3) by simp
  from assemble_rows_step [OF Cons.prems(1) l] obtain H1 where
    b: "0 \<le> size_of ds l"
    and row: "assemble_row ds folder l s0 (s0 + size_of ds l) (arange l (batch_number ds)) H s0 = Inr H1"
    and rest: "assemble_rows ds folder ls H1 (s0 + size_of ds l) = Inr H'"
    by blast
  have e0: "0 \<le> s0 + size_of ds l" using b Cons.prems(2) by simp
  note fr = assemble_row_frame [OF row Cons.prems(2) e0 Cons.prems(2)]
  note sh = same_shape_nth [OF conjunct1 [OF fr]]
  have ih: "map length H' = map length H1 \<and>
         (\<forall>i j. i < length H1 \<longrightarrow> j < length (H1 ! i) \<longrightarrow>
                int i < s0 + size_of ds l \<or> int j < s0 + size_of ds l \<longrightarrow> H' ! i ! j = H1 ! i ! j)"
    using Cons.IH [OF rest e0] Cons.prems(3) by simp
  show ?case
  proof (intro conjI allI impI)
    show "map length H' = map length H" using ih fr by simp
  next
    fix i j assume i: "i < length H" and j: "j < length (H ! i)"
      and out: "int i < s0 \<or> int j < s0"
    have "H' ! i ! j = H1 ! i ! j"
      using ih i j out sh b by auto
    also have "\<dots> = H ! i ! j" using fr i j out by blast
    finally show "H' ! i ! j = H ! i ! j" .
  qed
qed

lemma assemble_rows_below_boundary:
  assumes "assemble_rows ds folder ls H s0 = Inr H'" and "0 \<le> s0"
    and "\<forall>l \<in> set ls. l < batch_number ds" and "k \<le> length ls"
  shows "s0 \<le> s0 + sum_list (map (size_of ds) (take k ls)) \<and>
         (\<forall>i j. i < length H \<longrightarrow> j < length (H ! i) \<longrightarrow>
                s0 + sum_list (map (size_of ds) (take k ls)) \<le> int i \<longrightarrow>
                int j < s0 + sum_list (map (size_of ds) (take k ls)) \<longrightarrow> H' ! i ! j = H ! i ! j)"
  using assms
proof (induction ls arbitrary: H s0 k)
  case Nil
  then show ?case by simp
next
  case (Cons l ls)
  show ?case
  proof (cases k)
    case 0
    then show ?thesis
      using assemble_rows_frame [OF Cons.prems(1,2,3)] by simp
  next
    case (Suc k')
    have l: "l < batch_number ds" using Cons.prems(3) by simp
    from assemble_rows_step [OF Cons.prems(1) l] obtain H1 where
      b: "0 \<le> size_of ds l"
      and row: "assemble_row ds folder l s0 (s0 + size_of ds l) (arange l (batch_number ds)) H s0 = Inr H1"
      and rest: "assemble_rows ds folder ls H1 (s0 + size_of ds l) = Inr H'"
      by blast
    define e0 where "e0 = s0 + size_of ds l"
    define s where "s = e0 + sum_list (map (size_of ds) (take k' ls))"
    have e0: "0 \<le> e0" "s0 \<le> e0" using b Cons.prems(2) by (simp_all add: e0_def)
    note fr = assemble_row_frame [OF row Cons.prems(2) e0(1) [unfolded e0_def] Cons.prems(2)]
    note sh = same_shape_nth [OF conjunct1 [OF fr]]
    have k': "k' \<le> length ls" using Cons.prems(4) Suc by simp
    have ih: "e0 \<le> s \<and> (\<forall>i j. i < length H1 \<longrightarrow> j < length (H1 ! i) \<longrightarrow>
                s \<le> int i \<longrightarrow> int j < s \<longrightarrow> H' ! i ! j = H1 ! i ! j)"
      using Cons.IH [OF rest e0(1) [unfolded e0_def] _ k'] Cons.prems(3)
      by (simp add: s_def e0_def)
    have s: "s0 + sum_list (map (size_of ds) (take k (l # ls))) = s"
      by (simp add: Suc s_def e0_def)
    show ?thesis
      unfolding s
    proof (intro conjI allI impI)
      show "s0 \<le> s" using ih e0 by simp
    next
      fix i j assume i: "i < length H" and j: "j < length (H ! i)"
        and below: "s \<le> int i" "int j < s"
      have "H' ! i ! j = H1 ! i ! j"
        using ih i j below sh by auto
      also have "\<dots> = H ! i ! j"
        using fr i j below ih by (auto simp: e0_def)
      finally show "H' ! i ! j = H ! i ! j" .
    qed
  qed
qed

lemma assemble_rows_sizes:
  assumes "assemble_rows ds folder ls H s0 = Inr H'"
    and "\<forall>l \<in> set ls. 0 \<le> l \<and> l < batch_number ds"
  shows "\<forall>l \<in> set ls. nat l < length (batch_size_list ds)
            \<and> size_of ds l = batch_size_list ds ! nat l \<and> 0 \<le> batch_size_list ds ! nat l"
  using assms
proof (induction ls arbitrary: H s0)
  case Nil
  then show ?case by simp
next
  case (Cons l ls)
  have l: "l < batch_number ds" "0 \<le> l" using Cons.prems(2) by simp_all
  from assemble_rows_step [OF Cons.prems(1) l(1)] obtain H1 where
    b: "0 \<le> size_of ds l" "py_get (batch_size_list ds) l = Inr (size_of ds l)"
    and rest: "assemble_rows ds folder ls H1 (s0 + size_of ds l) = Inr H'"
    by blast
  have "nat l < length (batch_size_list ds) \<and> size_of ds l = batch_size_list ds ! nat l"
    using b(2) l(2) by (auto simp: py_get_def Let_def split: if_splits)
  then show ?case
    using b(1) Cons.IH [OF rest] Cons.prems(2) by auto
qed

lemma sum_list_take_mono:
  fixes xs :: "int list"
  assumes "a \<le> b" and "b \<le> length xs" and "\<forall>k < b. 0 \<le> xs ! k"
  shows "sum_list (take a xs) \<le> sum_list (take b xs)"
proof -
  have "take b xs = take a xs @ take (b - a) (drop a xs)"
    using assms(1) by (metis le_add_diff_inverse take_add)
  moreover have "0 \<le> sum_list (take (b - a) (drop a xs))"
  proof (rule sum_list_nonneg)
    fix x assume "x \<in> set (take (b - a) (drop a xs))"
    then obtain k where "k < b - a" "k < length (drop a xs)" "x = drop a xs ! k"
      by (auto simp: in_set_conv_nth)
    then show "0 \<le> x" using assms by auto
  qed
  ultimately show ?thesis by simp
qed

lemma map_size_of_arange:
  assumes "\<forall>l \<in> set (arange 0 n). nat l < length bs \<and> f l = bs ! nat l" and "int k \<le> n"
  shows "map f (take k (arange 0 n)) = take k bs"
proof (rule nth_equalityI)
  have len: "length (arange 0 n) = nat n" by (simp add: arange_def)
  have "n \<le> int (length bs)"
  proof (cases "n \<le> 0")
    case False
    then have "n - 1 \<in> set (arange 0 n)" by (simp add: set_arange)
    then show ?thesis using assms(1) by fastforce
  qed simp
  then show l: "length (map f (take k (arange 0 n))) = length (take k bs)"
    using assms(2) by (simp add: len)
  fix i assume "i < length (map f (take k (arange 0 n)))"
  then have i: "i < k" "i < nat n" by (simp_all add: len)
  then have nth: "arange 0 n ! i = int i" by (simp add: arange_def)
  then have "int i \<in> set (arange 0 n)" using i len by (metis nth_mem)
  then show "map f (take k (arange 0 n)) ! i = take k bs ! i"
    using assms(1) i nth len by auto
qed

text \<open>
  Claim C10.  The matrix of a successful \<open>assemble_mat\<close> is block upper-triangular: for
  batches \<open>m < l\<close>, every entry in the rows of batch \<open>l\<close> and the columns of batch \<open>m\<close>
  is zero.
\<close>

theorem assemble_mat_block_upper_triangular:
  assumes "assemble_mat ds folder = Inr H"
    and "0 \<le> m" and "m < l" and "l < batch_number ds"
    and "i < length H" and "j < length (H ! i)"
    and "block_start ds l \<le> int i" and "int i < block_start ds l + batch_size_list ds ! nat l"
    and "block_start ds m \<le> int j" and "int j < block_start ds m + batch_size_list ds ! nat m"
  shows "H ! i ! j = 0"
proof -
  define n where "n = batch_number ds"
  define t where "t = nat (pattern_number_total ds)"
  define Z where "Z = replicate t (replicate t (0::real))"
  have run: "assemble_rows ds folder (arange 0 n) Z 0 = Inr H"
    using assms(1) by (auto simp: assemble_mat_def Let_def n_def t_def Z_def split: if_splits)
  have rng: "\<forall>l \<in> set (arange 0 n). 0 \<le> l \<and> l < batch_number ds"
    by (simp add: set_arange n_def)
  then have rng': "\<forall>l \<in> set (arange 0 n). l < batch_number ds" by simp
  note sizes = assemble_rows_sizes [OF run rng]
  have shape: "map length H = map length Z"
    using assemble_rows_frame [OF run _ rng'] by simp
  note sh = same_shape_nth [OF shape]
  have iZ: "i < length Z" "j < length (Z ! i)" using assms(5,6) sh by simp_all
  have k: "nat l \<le> length (arange 0 n)" using assms(4) by (simp add: arange_def n_def)
  have "map (size_of ds) (take (nat l) (arange 0 n)) = take (nat l) (batch_size_list ds)"
    using map_size_of_arange [of n "batch_size_list ds" "size_of ds" "nat l"] sizes assms(2,3,4)
    by (simp add: n_def)
  then have s: "0 + sum_list (map (size_of ds) (take (nat l) (arange 0 n))) = block_start ds l"
    by (simp add: block_start_def)
  have len: "n \<le> int (length (batch_size_list ds))"
  proof -
    have "n - 1 \<in> set (arange 0 n)" using assms(2,3,4) by (simp add: set_arange n_def)
    then show ?thesis using sizes by fastforce
  qed
  have nonneg: "\<forall>k < nat l. 0 \<le> batch_size_list ds ! k"
  proof (intro allI impI)
    fix k assume "k < nat l"
    then have "int k \<in> set (arange 0 n)" using assms(4) by (simp add: set_arange n_def)
    then show "0 \<le> batch_size_list ds ! k" using sizes by fastforce
  qed
  have m_lt: "nat m < length (batch_size_list ds)" using len assms(2,3,4) by (simp add: n_def)
  have "block_start ds m + batch_size_list ds ! nat m = sum_list (take (Suc (nat m)) (batch_size_list ds))"
    using m_lt by (simp add: block_start_def take_Suc_conv_app_nth)
  also have "\<dots> \<le> block_start ds l"
    unfolding block_start_def
    using sum_list_take_mono [of "Suc (nat m)" "nat l" "batch_size_list ds"] nonneg len assms(2,3,4)
    by (simp add: n_def)
  finally have j: "int j < block_start ds l" using assms(10) by simp
  have "H ! i ! j = Z ! i ! j"
    using assemble_rows_below_boundary [OF run _ rng' k] iZ assms(7) j unfolding s by simp
  also have "\<dots> = 0" using iZ by (simp add: Z_def)
  finally show ?thesis .
qed

lemma example_assembled:
  "assemble_mat example_source example_folder = Inr [[5, 6, 7], [0, 7, 8], [0, 9, 10]]"
  by code_simp

theorem assemble_mat_block_upper_triangular_witness:
  "assemble_mat example_source example_folder = Inr [[5, 6, 7], [0, 7, 8], [0, 9, 10]]
   \<and> (0::int) < 1 \<and> 1 < batch_number example_source
   \<and> block_start example_source 1 \<le> int 2
   \<and> int 2 < block_start example_source 1 + batch_size_list example_source ! nat 1
   \<and> block_start example_source 0 \<le> int 0
   \<and> int 0 < block_start example_source 0 + batch_size_list example_source ! nat 0
   \<and> [[5, 6, 7], [0, 7, 8], [0, 9, 10::real]] ! 2 ! 0 = 0"
  using assemble_mat_block_upper_triangular
    [of example_source example_folder "[[5, 6, 7], [0, 7, 8], [0, 9, 10]]" 0 1 2 0]
    example_assembled
  by (simp add: example_source_def block_start_def)

section \<open>The off-diagonal merge\<close>

lemma map_insort_key: "map f (insort_key f x xs) = insort (f x) (map f xs)"
  by (induction xs) auto

lemma map_sort_key: "map f (sort_key f xs) = sort (map f xs)"
  by (induction xs) (auto simp: map_insort_key)

lemma argsort_values: "map (\<lambda>p. a ! p) (argsort a) = sort a"
  by (simp add: argsort_def map_sort_key map_nth)

lemma argsort_mset: "mset (argsort a) = mset [0..<length a]"
  by (simp add: argsort_def)

lemma argsort_set: "set (argsort a) = {0..<length a}"
  by (simp add: argsort_def)

lemma top_positions_props:
  "length (top_positions K a) = min K (length a)"
  "set (top_positions K a) \<subseteq> {0..<length a}"
  "map (\<lambda>p. a ! p) (top_positions K a) = largest K a"
  "mset (top_positions K a) \<subseteq># mset [0..<length a]"
proof -
  show "length (top_positions K a) = min K (length a)"
    by (simp add: top_positions_def argsort_def min.commute)
  show "set (top_positions K a) \<subseteq> {0..<length a}"
    using set_take_subset [of K "rev (argsort a)"] by (simp add: top_positions_def argsort_set)
  show "map (\<lambda>p. a ! p) (top_positions K a) = largest K a"
    by (simp add: top_positions_def largest_def argsort_values [symmetric] take_map rev_map)
  have "mset (take K (rev (argsort a))) \<subseteq># mset (rev (argsort a))"
    by (metis append_take_drop_id mset_append mset_subset_eq_add_left)
  then show "mset (top_positions K a) \<subseteq># mset [0..<length a]"
    by (simp add: top_positions_def argsort_mset)
qed

lemma get_values_ok:
  assumes "set ps \<subseteq> {0..<length source}"
  shows "get_values source ps = Inr (map (\<lambda>p. source ! p) ps)"
  using assms by (induction ps) (auto simp: py_get_def bnd_def)

lemma merge_row_eq:
  assumes "length row_val = K" and "length row_idx = K" and "length col_idx = K + length inner_row"
  shows "merge_row K row_val row_idx inner_row col_idx =
         Inr (map (\<lambda>p. (row_idx @ drop K col_idx) ! p) (top_positions K (row_val @ inner_row)),
              largest K (row_val @ inner_row))"
proof -
  have aux: "assign_slice col_idx None (Some (int K)) row_idx = Inr (row_idx @ drop K col_idx)"
    using assms by (simp add: assign_slice_def slice_lo_def slice_hi_def norm_idx_def Let_def)
  have rng: "set (top_positions K (row_val @ inner_row)) \<subseteq> {0..<length (row_val @ inner_row)}"
    by (rule top_positions_props)
  then have rng': "set (top_positions K (row_val @ inner_row)) \<subseteq> {0..<length (row_idx @ drop K col_idx)}"
    using assms by simp
  show ?thesis
    unfolding merge_row_def aux
    by (simp add: bnd_def Let_def get_values_ok [OF rng] get_values_ok [OF rng'] top_positions_props(3))
qed

lemma sorted_split:
  fixes S :: "real list"
  assumes "sorted S"
  shows "S = filter (\<lambda>y. y < r) S @ filter (\<lambda>y. r \<le> y) S"
  using assms
proof (induction S)
  case Nil
  then show ?case by simp
next
  case (Cons a S)
  show ?case
  proof (cases "r \<le> a")
    case True
    then have "\<forall>y \<in> set (a # S). r \<le> y" using Cons.prems by auto
    then have "filter (\<lambda>y. y < r) (a # S) = []" "filter (\<lambda>y. r \<le> y) (a # S) = a # S"
      by (auto simp: filter_empty_conv)
    then show ?thesis by simp
  next
    case False
    then show ?thesis using Cons by auto
  qed
qed

lemma insort_split:
  fixes S :: "real list"
  assumes "sorted S"
  shows "insort r S = filter (\<lambda>y. y < r) S @ r # filter (\<lambda>y. r \<le> y) S"
  using assms
proof (induction S)
  case Nil
  then show ?case by simp
next
  case (Cons a S)
  show ?case
  proof (cases "r \<le> a")
    case True
    then have "\<forall>y \<in> set (a # S). r \<le> y" using Cons.prems by auto
    then have "filter (\<lambda>y. y < r) (a # S) = []" "filter (\<lambda>y. r \<le> y) (a # S) = a # S"
      by (auto simp: filter_empty_conv)
    then show ?thesis using True by simp
  next
    case False
    then show ?thesis using Cons by auto
  qed
qed

lemma insort_low:
  fixes S :: "real list"
  assumes "sorted S" and "K \<le> length (filter (\<lambda>y. r \<le> y) S)"
  shows "take K (rev (insort r S)) = take K (rev S)"
proof -
  have "rev (insort r S) = rev (filter (\<lambda>y. r \<le> y) S) @ r # rev (filter (\<lambda>y. y < r) S)"
    by (simp add: insort_split [OF assms(1)])
  then have "take K (rev (insort r S)) = take K (rev (filter (\<lambda>y. r \<le> y) S))"
    using assms(2) by simp
  moreover have "rev S = rev (filter (\<lambda>y. r \<le> y) S) @ rev (filter (\<lambda>y. y < r) S)"
    using sorted_split [OF assms(1), of r] by (metis rev_append)
  then have "take K (rev S) = take K (rev (filter (\<lambda>y. r \<le> y) S))"
    using assms(2) by simp
  ultimately show ?thesis by simp
qed

lemma largest_mset: "mset xs = mset ys \<Longrightarrow> largest K xs = largest K ys"
  by (metis largest_def sorted_list_of_multiset_mset)

lemma largest_drop_low:
  assumes "\<forall>r \<in> set R. K \<le> length (filter (\<lambda>y. r \<le> y) C)"
  shows "largest K (R @ C) = largest K C"
  using assms
proof (induction R)
  case Nil
  then show ?case by simp
next
  case (Cons r R)
  have "K \<le> length (filter (\<lambda>y. r \<le> y) C)" using Cons.prems by simp
  also have "\<dots> \<le> length (filter (\<lambda>y. r \<le> y) (R @ C))" by simp
  also have "\<dots> = length (filter (\<lambda>y. r \<le> y) (sort (R @ C)))"
    by (metis mset_filter mset_sort size_mset)
  finally have "take K (rev (insort r (sort (R @ C)))) = take K (rev (sort (R @ C)))"
    by (intro insort_low) simp_all
  then show ?case using Cons by (simp add: largest_def)
qed

lemma largest_of_largest:
  "largest K (largest K seen @ new) = largest K (seen @ new)"
proof -
  define D where "D = rev (sort seen)"
  define T where "T = take K D"
  define R where "R = drop K D"
  have D: "sorted (rev D)" "mset D = mset seen" by (simp_all add: D_def)
  have TR: "D = T @ R" by (simp add: T_def R_def)
  have low: "\<forall>r \<in> set R. K \<le> length (filter (\<lambda>y. r \<le> y) (T @ new))"
  proof
    fix r assume r: "r \<in> set R"
    then have "R \<noteq> []" by auto
    then have lenT: "length T = K" by (auto simp: T_def R_def)
    have "sorted (rev R @ rev T)" using D(1) TR by simp
    then have "\<forall>t \<in> set T. r \<le> t" using r by (auto simp: sorted_append)
    then have "filter (\<lambda>y. r \<le> y) T = T" by (simp add: filter_id_conv)
    then show "K \<le> length (filter (\<lambda>y. r \<le> y) (T @ new))" using lenT by simp
  qed
  have "mset (seen @ new) = mset (R @ (T @ new))"
    using D(2) TR by (metis mset_append union_commute union_assoc)
  then have "largest K (seen @ new) = largest K (R @ (T @ new))" by (rule largest_mset)
  also have "\<dots> = largest K (T @ new)" by (rule largest_drop_low [OF low])
  finally show ?thesis by (simp add: T_def D_def largest_def)
qed

lemma largest_min:
  assumes "0 < K" and "length kept = K"
  shows "Min (set kept) \<le> Min (set (largest K (kept @ new)))"
proof -
  define m where "m = Min (set kept)"
  define D where "D = rev (sort (kept @ new))"
  have kept_ne: "set kept \<noteq> {}" using assms by auto
  have all_ge: "\<forall>y \<in> set kept. m \<le> y" by (simp add: m_def)
  have lenD: "K \<le> length D" using assms by (simp add: D_def)
  have cnt: "K \<le> length (filter (\<lambda>y. m \<le> y) D)"
  proof -
    have "filter (\<lambda>y. m \<le> y) kept = kept" using all_ge by (simp add: filter_id_conv)
    then have "K \<le> length (filter (\<lambda>y. m \<le> y) (kept @ new))" using assms by simp
    also have "\<dots> = length (filter (\<lambda>y. m \<le> y) D)"
      unfolding D_def by (metis mset_filter mset_rev mset_sort size_mset)
    finally show ?thesis .
  qed
  have "\<forall>x \<in> set (take K D). m \<le> x"
  proof (rule ccontr)
    assume "\<not> (\<forall>x \<in> set (take K D). m \<le> x)"
    then obtain p where p: "p < K" "D ! p < m"
      using lenD by (auto simp: in_set_conv_nth)
    have desc: "sorted (rev D)" by (simp add: D_def)
    have "\<forall>y \<in> set (drop p D). y < m"
    proof
      fix y assume "y \<in> set (drop p D)"
      then obtain i where i: "i < length D - p" "y = D ! (p + i)"
        by (auto simp: in_set_conv_nth)
      then have "D ! (p + i) \<le> D ! p"
        using sorted_rev_nth_mono [OF desc, of p "p + i"] by simp
      then show "y < m" using i(2) p(2) by simp
    qed
    then have "filter (\<lambda>y. m \<le> y) (drop p D) = []" by (auto simp: filter_empty_conv)
    then have "filter (\<lambda>y. m \<le> y) D = filter (\<lambda>y. m \<le> y) (take p D)"
      by (metis append_Nil2 append_take_drop_id filter_append)
    then have "length (filter (\<lambda>y. m \<le> y) D) \<le> p"
      by (metis length_filter_le length_take min.cobounded2 order_trans)
    then show False using cnt p(1) by simp
  qed
  moreover have "set (take K D) \<noteq> {}" using assms lenD by (cases D) auto
  ultimately show ?thesis
    by (simp add: largest_def D_def [symmetric] m_def [symmetric])
qed


lemma zip_map_same: "zip (map f ps) (map g ps) = map (\<lambda>p. (f p, g p)) ps"
  by (induction ps) auto

lemma zip_as_map:
  assumes "length xs = length ys"
  shows "zip xs ys = map (\<lambda>p. (xs ! p, ys ! p)) [0..<length xs]"
  using assms by (auto intro: nth_equalityI)

text \<open>
  Claim C3 has the merge break ties by the smaller global index.  A row that keeps
  neighbour 0 with correlation 1/2 and scans a bin whose only column, global index 7,
  has correlation 1/2 as well, keeps neighbour 7 afterwards; the spec's order keeps 0.
\<close>

theorem merge_tie_counterexample:
  "merge_row 1 [1/2] [0] [1/2] [0, 7] = Inr ([7], [1/2])
   \<and> topk_spec 1 (zip ([0] @ [7]) ([1/2] @ [1/2])) = [(0, 1/2)]"
  by code_simp

text \<open>
  Claim C3, amended.  A merge step returns, for a row that keeps \<open>K\<close> values, the \<open>K\<close>
  largest values of the kept values and the bin's columns together, in descending order,
  each with the global index of the column it is read from; when the kept values are the
  \<open>K\<close> largest of the columns seen before, the result is the \<open>K\<close> largest of all columns
  seen so far; and for \<open>K > 0\<close> the smallest kept value does not decrease.  Nothing is
  said about the order of equal values.
\<close>

theorem merge_row_largest:
  assumes "length row_val = K" and "length row_idx = K"
    and "length col_idx = K + length inner_row"
  shows "\<exists>idx val. merge_row K row_val row_idx inner_row col_idx = Inr (idx, val)
           \<and> length idx = K
           \<and> val = largest K (row_val @ inner_row)
           \<and> mset (zip idx val) \<subseteq># mset (zip (row_idx @ drop K col_idx) (row_val @ inner_row))
           \<and> (\<forall>seen. row_val = largest K seen \<longrightarrow> val = largest K (seen @ inner_row))
           \<and> (0 < K \<longrightarrow> Min (set row_val) \<le> Min (set val))"
proof -
  define aux where "aux = row_idx @ drop K col_idx"
  define cat where "cat = row_val @ inner_row"
  define tp where "tp = top_positions K cat"
  define idx where "idx = map (\<lambda>p. aux ! p) tp"
  define val where "val = largest K cat"
  have eq: "merge_row K row_val row_idx inner_row col_idx = Inr (idx, val)"
    using merge_row_eq [OF assms] by (simp add: idx_def val_def tp_def aux_def cat_def)
  have len: "length aux = length cat" using assms by (simp add: aux_def cat_def)
  have lidx: "length idx = K"
    using assms by (simp add: idx_def tp_def top_positions_props(1) cat_def)
  have val: "val = map (\<lambda>p. cat ! p) tp"
    by (simp add: val_def tp_def top_positions_props(3))
  have "zip idx val = map (\<lambda>p. (aux ! p, cat ! p)) tp"
    by (simp add: idx_def val zip_map_same)
  then have "mset (zip idx val) = image_mset (\<lambda>p. (aux ! p, cat ! p)) (mset tp)" by simp
  also have "\<dots> \<subseteq># image_mset (\<lambda>p. (aux ! p, cat ! p)) (mset [0..<length cat])"
    unfolding tp_def by (rule image_mset_subseteq_mono) (rule top_positions_props(4))
  also have "\<dots> = mset (zip aux cat)"
    using zip_as_map [OF len] len by simp
  finally have sub: "mset (zip idx val) \<subseteq># mset (zip aux cat)" .
  have seen: "\<forall>seen. row_val = largest K seen \<longrightarrow> val = largest K (seen @ inner_row)"
    by (simp add: val_def cat_def largest_of_largest)
  have mono: "0 < K \<longrightarrow> Min (set row_val) \<le> Min (set val)"
    using largest_min [OF _ assms(1)] by (simp add: val_def cat_def)
  show ?thesis
    using eq lidx sub seen mono unfolding val_def cat_def aux_def by blast
qed

theorem merge_row_largest_witness:
  "length [1/2, 1/4 :: real] = 2 \<and> length [3, 4 :: int] = 2 \<and> length [0, 0, 7 :: int] = 2 + length [1/3 :: real]
   \<and> merge_row 2 [1/2, 1/4] [3, 4] [1/3] [0, 0, 7] = Inr ([3, 7], [1/2, 1/3])"
proof -
  have "merge_row 2 [1/2, 1/4] [3, 4] [1/3] [0, 0, 7] = Inr ([3, 7], [1/2, 1/3])"
    by code_simp
  then show ?thesis
    using merge_row_largest [of "[1/2, 1/4]" 2 "[3, 4]" "[0, 0, 7]" "[1/3]"] by simp
qed

section \<open>The global index map in closed form\<close>

lemma length_overwrite: "s + length xs \<le> length row \<Longrightarrow> length (overwrite row s xs) = length row"
  by (simp add: overwrite_def)

lemma overwrite_twice:
  assumes "s + length xs + length ys \<le> length row"
  shows "overwrite (overwrite row s xs) (s + length xs) ys = overwrite row s (xs @ ys)"
  using assms by (simp add: overwrite_def ac_simps)

lemma overwrite_all: "length xs = length row \<Longrightarrow> overwrite row 0 xs = xs"
  by (simp add: overwrite_def)

lemma overwrite_Nil: "overwrite row s [] = row"
  by (simp add: overwrite_def)

lemma fill_slice_write:
  assumes "0 \<le> lo" and "lo \<le> hi" and "hi \<le> int (length row)"
  shows "fill_slice row lo hi v = overwrite row (nat lo) (replicate (nat (hi - lo)) v)"
proof -
  have "norm_idx (length row) lo = nat lo" "norm_idx (length row) hi = nat hi"
    using assms by (simp_all add: norm_idx_def)
  moreover have "nat hi - nat lo = nat (hi - lo)" using assms by simp
  ultimately show ?thesis
    by (simp add: fill_slice_def overwrite_def Let_def)
qed

lemma assign_slice_write:
  assumes "0 \<le> lo" and "lo \<le> hi" and "hi \<le> int (length row)" and "length src = nat (hi - lo)"
  shows "assign_slice row (Some lo) (Some hi) src = Inr (overwrite row (nat lo) src)"
proof -
  have "norm_idx (length row) lo = nat lo" "norm_idx (length row) hi = nat hi"
    using assms by (simp_all add: norm_idx_def)
  moreover have "nat hi - nat lo = nat (hi - lo)" using assms by simp
  ultimately show ?thesis
    using assms(4) by (simp add: assign_slice_def slice_lo_def slice_hi_def overwrite_def Let_def)
qed

lemma nat_sum_list_nonneg:
  fixes g :: "'a \<Rightarrow> int"
  assumes "\<forall>d \<in> set ds. 0 \<le> g d"
  shows "nat (sum_list (map g ds)) = sum_list (map (\<lambda>d. nat (g d)) ds)"
  using assms
proof (induction ds)
  case Nil
  then show ?case by simp
next
  case (Cons d ds)
  have "0 \<le> sum_list (map g ds)" using Cons.prems by (intro sum_list_nonneg) auto
  then show ?case using Cons by (simp add: nat_add_distrib)
qed

lemma length_concat_map: "length (concat (map f xs)) = sum_list (map (\<lambda>x. length (f x)) xs)"
  by (induction xs) auto

lemma dataset_loop_closed:
  assumes "py_get dnpd f = Inr counts"
    and "\<forall>d \<in> set ds. 0 \<le> d \<and> d < int (length counts) \<and> 0 \<le> counts ! nat d"
    and "0 \<le> s"
    and "s + sum_list (map (\<lambda>d. counts ! nat d) ds) \<le> int (length (dataset_row h))"
    and "length (local_row h) = length (dataset_row h)"
  shows "dataset_loop dnpd f ds h s =
         Inr (h\<lparr>dataset_row := overwrite (dataset_row h) (nat s)
                   (concat (map (\<lambda>d. replicate (nat (counts ! nat d)) d) ds)),
                local_row := overwrite (local_row h) (nat s)
                   (concat (map (\<lambda>d. arange 0 (counts ! nat d)) ds))\<rparr>)"
  using assms(2-5)
proof (induction ds arbitrary: h s)
  case Nil
  then show ?case by (simp add: overwrite_Nil)
next
  case (Cons d ds)
  define c where "c = counts ! nat d"
  define rest where "rest = sum_list (map (\<lambda>d. counts ! nat d) ds)"
  have d: "0 \<le> d" "d < int (length counts)" "0 \<le> c" using Cons.prems(1) by (simp_all add: c_def)
  have rest: "0 \<le> rest"
    unfolding rest_def using Cons.prems(1) by (intro sum_list_nonneg) auto
  have bound: "s + c + rest \<le> int (length (dataset_row h))"
    using Cons.prems(3) by (simp add: c_def rest_def)
  have get: "py_get counts d = Inr c" using d by (simp add: py_get_def c_def)
  define h1 where "h1 = h\<lparr>dataset_row := overwrite (dataset_row h) (nat s) (replicate (nat c) d)\<rparr>"
  define h2 where "h2 = h1\<lparr>local_row := overwrite (local_row h) (nat s) (arange 0 c)\<rparr>"
  have fill: "fill_slice (dataset_row h) s (s + c) d = overwrite (dataset_row h) (nat s) (replicate (nat c) d)"
    using fill_slice_write [of s "s + c" "dataset_row h" d] Cons.prems(2) d rest bound by simp
  have asg: "assign_slice (local_row h1) (Some s) (Some (s + c)) (arange 0 c)
             = Inr (overwrite (local_row h) (nat s) (arange 0 c))"
    using assign_slice_write [of s "s + c" "local_row h" "arange 0 c"] Cons.prems(2,4) d rest bound
    by (simp add: h1_def arange_length)
  have step: "dataset_loop dnpd f (d # ds) h s = dataset_loop dnpd f ds h2 (s + c)"
    using assms(1) get fill asg by (simp add: bnd_def Let_def h1_def h2_def)
  have len2: "length (dataset_row h2) = length (dataset_row h)"
    "length (local_row h2) = length (dataset_row h)"
    using Cons.prems(2,4) d rest bound
    by (simp_all add: h2_def h1_def length_overwrite arange_length nat_add_distrib [symmetric] nat_le_iff)
  have ih: "dataset_loop dnpd f ds h2 (s + c) =
         Inr (h2\<lparr>dataset_row := overwrite (dataset_row h2) (nat (s + c))
                   (concat (map (\<lambda>d. replicate (nat (counts ! nat d)) d) ds)),
                local_row := overwrite (local_row h2) (nat (s + c))
                   (concat (map (\<lambda>d. arange 0 (counts ! nat d)) ds))\<rparr>)"
  proof (rule Cons.IH)
    show "\<forall>d \<in> set ds. 0 \<le> d \<and> d < int (length counts) \<and> 0 \<le> counts ! nat d"
      using Cons.prems(1) by simp
    show "0 \<le> s + c" using Cons.prems(2) d by simp
    show "s + c + sum_list (map (\<lambda>d. counts ! nat d) ds) \<le> int (length (dataset_row h2))"
      using bound len2 by (simp add: rest_def)
    show "length (local_row h2) = length (dataset_row h2)" using len2 by simp
  qed
  have lenD: "length (concat (map (\<lambda>d. replicate (nat (counts ! nat d)) d) ds)) = nat rest"
    using Cons.prems(1) nat_sum_list_nonneg [of ds "\<lambda>d. counts ! nat d"]
    by (simp add: rest_def length_concat_map)
  have lenL: "length (concat (map (\<lambda>d. arange 0 (counts ! nat d)) ds)) = nat rest"
    using Cons.prems(1) nat_sum_list_nonneg [of ds "\<lambda>d. counts ! nat d"]
    by (simp add: rest_def length_concat_map arange_length)
  have pos: "nat (s + c) = nat s + nat c" using Cons.prems(2) d by (simp add: nat_add_distrib)
  have fits: "nat s + nat c + nat rest \<le> length (dataset_row h)"
    using bound Cons.prems(2) d rest by linarith
  have w1: "overwrite (dataset_row h2) (nat (s + c)) (concat (map (\<lambda>d. replicate (nat (counts ! nat d)) d) ds))
        = overwrite (dataset_row h) (nat s) (concat (map (\<lambda>d. replicate (nat (counts ! nat d)) d) (d # ds)))"
    using overwrite_twice [of "nat s" "replicate (nat c) d" _ "dataset_row h"] fits lenD
    by (simp add: h2_def h1_def pos [unfolded c_def] c_def)
  have w2: "overwrite (local_row h2) (nat (s + c)) (concat (map (\<lambda>d. arange 0 (counts ! nat d)) ds))
        = overwrite (local_row h) (nat s) (concat (map (\<lambda>d. arange 0 (counts ! nat d)) (d # ds)))"
    using overwrite_twice [of "nat s" "arange 0 c" _ "local_row h"] fits lenL Cons.prems(4)
    by (simp add: h2_def h1_def pos [unfolded c_def] c_def arange_length)
  show ?case
    unfolding step ih w1 w2 by (simp add: h2_def h1_def)
qed


lemma arange_map_int: "arange 0 c = map int [0..<nat c]"
proof (cases "0 \<le> c")
  case True
  then obtain n where c: "c = int n" by (metis nonneg_int_cases)
  have "[0..int n - 1] = map int [0..<n]"
  proof (induction n)
    case 0
    then show ?case by simp
  next
    case (Suc n)
    have "[0..int (Suc n) - 1] = [0..int n - 1] @ [int n]"
      using upto_rec2 [of 0 "int n"] by simp
    then show ?case using Suc by simp
  qed
  then show ?thesis by (simp add: arange_def c)
next
  case False
  then show ?thesis by (simp add: arange_def)
qed

lemma map_nth_arange:
  "map (\<lambda>d. g (nat d)) (arange 0 (int n)) = map g [0..<n]"
  by (simp add: arange_map_int comp_def)

lemma map_nat_counts:
  "map (\<lambda>d. nat (counts ! nat d)) (arange 0 (int (length counts))) = map nat counts"
proof -
  have "map nat counts = map nat (map ((!) counts) [0..<length counts])"
    by (simp only: map_nth)
  then show ?thesis by (simp add: arange_map_int comp_def)
qed

lemma block_lengths:
  assumes "\<forall>c \<in> set counts. 0 \<le> c"
  shows "length (concat (map (\<lambda>d. replicate (nat (counts ! nat d)) d)
           (arange 0 (int (length counts))))) = nat (sum_list counts)"
    and "length (concat (map (\<lambda>d. arange 0 (counts ! nat d))
           (arange 0 (int (length counts))))) = nat (sum_list counts)"
proof -
  have s: "nat (sum_list counts) = sum_list (map nat counts)"
    using nat_sum_list_nonneg [of counts "\<lambda>c. c"] assms by simp
  show "length (concat (map (\<lambda>d. replicate (nat (counts ! nat d)) d)
           (arange 0 (int (length counts))))) = nat (sum_list counts)"
    by (simp add: length_concat_map s map_nat_counts)
  show "length (concat (map (\<lambda>d. arange 0 (counts ! nat d))
           (arange 0 (int (length counts))))) = nat (sum_list counts)"
    by (simp add: length_concat_map s arange_length map_nat_counts)
qed

lemma file_loop_closed:
  assumes "consistent_counts F dnpf dsnpf dnpd"
    and "\<forall>f \<in> set fs. 0 \<le> f \<and> f < int (length dnpf)"
    and "0 \<le> s"
    and "s + sum_list (map (\<lambda>f. dnpf ! nat f) fs) \<le> int (length (file_row h))"
    and "length (dataset_row h) = length (file_row h)"
    and "length (local_row h) = length (file_row h)"
  shows "file_loop dnpf dsnpf dnpd fs h s =
         Inr (h\<lparr>file_row := overwrite (file_row h) (nat s)
                   (concat (map (\<lambda>f. replicate (nat (dnpf ! nat f)) f) fs)),
                dataset_row := overwrite (dataset_row h) (nat s)
                   (concat (map (\<lambda>f. concat (map (\<lambda>d. replicate (nat (dnpd ! nat f ! nat d)) d)
                                                (arange 0 (dsnpf ! nat f)))) fs)),
                local_row := overwrite (local_row h) (nat s)
                   (concat (map (\<lambda>f. concat (map (\<lambda>d. arange 0 (dnpd ! nat f ! nat d))
                                                (arange 0 (dsnpf ! nat f)))) fs))\<rparr>)"
  using assms(2-6)
proof (induction fs arbitrary: h s)
  case Nil
  then show ?case by (simp add: overwrite_Nil)
next
  case (Cons f fs)
  define num where "num = dnpf ! nat f"
  define counts where "counts = dnpd ! nat f"
  define rest where "rest = sum_list (map (\<lambda>f. dnpf ! nat f) fs)"
  define N where "N = length (file_row h)"
  define DB where "DB = concat (map (\<lambda>d. replicate (nat (counts ! nat d)) d) (arange 0 (dsnpf ! nat f)))"
  define LB where "LB = concat (map (\<lambda>d. arange 0 (counts ! nat d)) (arange 0 (dsnpf ! nat f)))"
  have f: "0 \<le> f" "nat f < length dnpf" using Cons.prems(1) by auto
  have cf: "dsnpf ! nat f = int (length counts)" "num = sum_list counts" "\<forall>c \<in> set counts. 0 \<le> c"
    and lens: "length dsnpf = length dnpf" "length dnpd = length dnpf"
    using assms(1) f by (simp_all add: consistent_counts_def counts_def num_def)
  have num: "0 \<le> num" using cf by (simp add: sum_list_nonneg)
  have nonneg: "\<forall>g \<in> set fs. 0 \<le> dnpf ! nat g"
  proof
    fix g assume "g \<in> set fs"
    then have "nat g < length dnpf" using Cons.prems(1) by auto
    then have "dnpf ! nat g = sum_list (dnpd ! nat g)" "\<forall>c \<in> set (dnpd ! nat g). 0 \<le> c"
      using assms(1) by (simp_all add: consistent_counts_def)
    then show "0 \<le> dnpf ! nat g" by (simp add: sum_list_nonneg)
  qed
  have rest: "0 \<le> rest" unfolding rest_def using nonneg by (intro sum_list_nonneg) auto
  have bound: "s + num + rest \<le> int N"
    using Cons.prems(3) by (simp add: num_def rest_def N_def)
  have g1: "py_get dnpf f = Inr num" using f by (simp add: py_get_def num_def)
  have g2: "py_get dsnpf f = Inr (int (length counts))"
    using f lens cf by (simp add: py_get_def)
  have g3: "py_get dnpd f = Inr counts" using f lens by (simp add: py_get_def counts_def)
  define h1 where "h1 = h\<lparr>file_row := overwrite (file_row h) (nat s) (replicate (nat num) f)\<rparr>"
  have fill: "fill_slice (file_row h) s (s + num) f = overwrite (file_row h) (nat s) (replicate (nat num) f)"
    using fill_slice_write [of s "s + num" "file_row h" f] Cons.prems(2) num rest bound
    by (simp add: N_def)
  have sumc: "sum_list (map (\<lambda>d. counts ! nat d) (arange 0 (int (length counts)))) = num"
    by (simp add: map_nth_arange map_nth cf)
  have inner: "dataset_loop dnpd f (arange 0 (int (length counts))) h1 s =
         Inr (h1\<lparr>dataset_row := overwrite (dataset_row h1) (nat s) DB,
                 local_row := overwrite (local_row h1) (nat s) LB\<rparr>)"
    unfolding DB_def LB_def cf(1)
  proof (rule dataset_loop_closed [OF g3])
    show "\<forall>d \<in> set (arange 0 (int (length counts))). 0 \<le> d \<and> d < int (length counts) \<and> 0 \<le> counts ! nat d"
      using cf(3) by (auto simp: arange_def)
    show "0 \<le> s" by (rule Cons.prems(2))
    show "s + sum_list (map (\<lambda>d. counts ! nat d) (arange 0 (int (length counts)))) \<le> int (length (dataset_row h1))"
      using bound rest Cons.prems(4) by (simp add: sumc h1_def N_def)
    show "length (local_row h1) = length (dataset_row h1)"
      using Cons.prems(4,5) by (simp add: h1_def)
  qed
  define h2 where "h2 = h1\<lparr>dataset_row := overwrite (dataset_row h1) (nat s) DB,
                 local_row := overwrite (local_row h1) (nat s) LB\<rparr>"
  have step: "file_loop dnpf dsnpf dnpd (f # fs) h s = file_loop dnpf dsnpf dnpd fs h2 (s + num)"
    using g1 g2 fill inner by (simp add: bnd_def Let_def h1_def [symmetric] h2_def)
  have lenDB: "length DB = nat num" and lenLB: "length LB = nat num"
    using block_lengths [OF cf(3)] by (simp_all add: DB_def LB_def cf(1,2))
  have fits: "nat s + nat num + nat rest \<le> N"
    using bound Cons.prems(2) num rest by linarith
  have len2: "length (file_row h2) = N" "length (dataset_row h2) = N" "length (local_row h2) = N"
    using fits Cons.prems(4,5)
    by (simp_all add: h2_def h1_def length_overwrite lenDB lenLB N_def)
  have pos: "nat (s + num) = nat s + nat num" using Cons.prems(2) num by (simp add: nat_add_distrib)
  have ih: "file_loop dnpf dsnpf dnpd fs h2 (s + num) =
         Inr (h2\<lparr>file_row := overwrite (file_row h2) (nat (s + num))
                   (concat (map (\<lambda>f. replicate (nat (dnpf ! nat f)) f) fs)),
                dataset_row := overwrite (dataset_row h2) (nat (s + num))
                   (concat (map (\<lambda>f. concat (map (\<lambda>d. replicate (nat (dnpd ! nat f ! nat d)) d)
                                                (arange 0 (dsnpf ! nat f)))) fs)),
                local_row := overwrite (local_row h2) (nat (s + num))
                   (concat (map (\<lambda>f. concat (map (\<lambda>d. arange 0 (dnpd ! nat f ! nat d))
                                                (arange 0 (dsnpf ! nat f)))) fs))\<rparr>)"
  proof (rule Cons.IH)
    show "\<forall>f \<in> set fs. 0 \<le> f \<and> f < int (length dnpf)" using Cons.prems(1) by simp
    show "0 \<le> s + num" using Cons.prems(2) num by simp
    show "s + num + sum_list (map (\<lambda>f. dnpf ! nat f) fs) \<le> int (length (file_row h2))"
      using bound len2 by (simp add: rest_def)
    show "length (dataset_row h2) = length (file_row h2)" using len2 by simp
    show "length (local_row h2) = length (file_row h2)" using len2 by simp
  qed
  define FR where "FR = concat (map (\<lambda>f. replicate (nat (dnpf ! nat f)) f) fs)"
  define DR where "DR = concat (map (\<lambda>f. concat (map (\<lambda>d. replicate (nat (dnpd ! nat f ! nat d)) d)
                                                (arange 0 (dsnpf ! nat f)))) fs)"
  define LR where "LR = concat (map (\<lambda>f. concat (map (\<lambda>d. arange 0 (dnpd ! nat f ! nat d))
                                                (arange 0 (dsnpf ! nat f)))) fs)"
  have lenR: "length FR = nat rest"
    using nat_sum_list_nonneg [of fs "\<lambda>f. dnpf ! nat f"] nonneg
    by (simp add: FR_def rest_def length_concat_map)
  have lenDR: "length DR = nat rest"
  proof -
    have "\<forall>g \<in> set fs. length (concat (map (\<lambda>d. replicate (nat (dnpd ! nat g ! nat d)) d)
                                                (arange 0 (dsnpf ! nat g)))) = nat (dnpf ! nat g)"
    proof
      fix g assume "g \<in> set fs"
      then have g: "nat g < length dnpf" using Cons.prems(1) by auto
      then have c: "dsnpf ! nat g = int (length (dnpd ! nat g))"
        "dnpf ! nat g = sum_list (dnpd ! nat g)" "\<forall>c \<in> set (dnpd ! nat g). 0 \<le> c"
        using assms(1) by (simp_all add: consistent_counts_def)
      show "length (concat (map (\<lambda>d. replicate (nat (dnpd ! nat g ! nat d)) d)
                                                (arange 0 (dsnpf ! nat g)))) = nat (dnpf ! nat g)"
        using block_lengths(1) [OF c(3)] by (simp add: c(1,2))
    qed
    then have "length DR = sum_list (map (\<lambda>g. nat (dnpf ! nat g)) fs)"
      unfolding DR_def length_concat_map by (intro arg_cong [where f = sum_list] map_cong) auto
    then show ?thesis
      using nat_sum_list_nonneg [of fs "\<lambda>f. dnpf ! nat f"] nonneg by (simp add: rest_def)
  qed
  have lenLR: "length LR = nat rest"
  proof -
    have "\<forall>g \<in> set fs. length (concat (map (\<lambda>d. arange 0 (dnpd ! nat g ! nat d))
                                                (arange 0 (dsnpf ! nat g)))) = nat (dnpf ! nat g)"
    proof
      fix g assume "g \<in> set fs"
      then have g: "nat g < length dnpf" using Cons.prems(1) by auto
      then have c: "dsnpf ! nat g = int (length (dnpd ! nat g))"
        "dnpf ! nat g = sum_list (dnpd ! nat g)" "\<forall>c \<in> set (dnpd ! nat g). 0 \<le> c"
        using assms(1) by (simp_all add: consistent_counts_def)
      show "length (concat (map (\<lambda>d. arange 0 (dnpd ! nat g ! nat d))
                                                (arange 0 (dsnpf ! nat g)))) = nat (dnpf ! nat g)"
        using block_lengths(2) [OF c(3)] by (simp add: c(1,2))
    qed
    then have "length LR = sum_list (map (\<lambda>g. nat (dnpf ! nat g)) fs)"
      unfolding LR_def length_concat_map by (intro arg_cong [where f = sum_list] map_cong) auto
    then show ?thesis
      using nat_sum_list_nonneg [of fs "\<lambda>f. dnpf ! nat f"] nonneg by (simp add: rest_def)
  qed
  have w0: "overwrite (file_row h2) (nat (s + num)) FR
        = overwrite (file_row h) (nat s) (replicate (nat num) f @ FR)"
    using overwrite_twice [of "nat s" "replicate (nat num) f" FR "file_row h"] fits lenR
    by (simp add: h2_def h1_def pos N_def)
  have w1: "overwrite (dataset_row h2) (nat (s + num)) DR
        = overwrite (dataset_row h) (nat s) (DB @ DR)"
    using overwrite_twice [of "nat s" DB DR "dataset_row h"] fits lenDR lenDB Cons.prems(4)
    by (simp add: h2_def h1_def pos N_def)
  have w2: "overwrite (local_row h2) (nat (s + num)) LR
        = overwrite (local_row h) (nat s) (LB @ LR)"
    using overwrite_twice [of "nat s" LB LR "local_row h"] fits lenLR lenLB Cons.prems(5)
    by (simp add: h2_def h1_def pos N_def)
  show ?case
    unfolding step ih FR_def [symmetric] DR_def [symmetric] LR_def [symmetric] w0 w1 w2
    by (simp add: h2_def h1_def FR_def DR_def LR_def DB_def LB_def num_def counts_def)
qed

lemma concat_replicate_sum:
  "concat (map (\<lambda>d. replicate (g d) v) xs) = replicate (sum_list (map g xs)) v"
  by (induction xs) (simp_all add: replicate_add)

lemma dataset_triples_rows:
  assumes "\<forall>c \<in> set counts. 0 \<le> c"
  shows "map fst (dataset_triples f counts) = replicate (nat (sum_list counts)) f"
    and "map (fst \<circ> snd) (dataset_triples f counts) =
         concat (map (\<lambda>d. replicate (nat (counts ! nat d)) d) (arange 0 (int (length counts))))"
    and "map (snd \<circ> snd) (dataset_triples f counts) =
         concat (map (\<lambda>d. arange 0 (counts ! nat d)) (arange 0 (int (length counts))))"
proof -
  have s: "nat (sum_list counts) = sum_list (map nat counts)"
    using nat_sum_list_nonneg [of counts "\<lambda>c. c"] assms by simp
  have m: "map (\<lambda>d. nat (counts ! d)) [0..<length counts] = map nat counts"
    using map_nat_counts [of counts] by (simp add: arange_map_int comp_def)
  show "map fst (dataset_triples f counts) = replicate (nat (sum_list counts)) f"
    by (simp add: dataset_triples_def map_concat comp_def map_replicate_const
        concat_replicate_sum s m)
  show "map (fst \<circ> snd) (dataset_triples f counts) =
         concat (map (\<lambda>d. replicate (nat (counts ! nat d)) d) (arange 0 (int (length counts))))"
    by (simp add: dataset_triples_def map_concat comp_def map_replicate_const arange_map_int)
  show "map (snd \<circ> snd) (dataset_triples f counts) =
         concat (map (\<lambda>d. arange 0 (counts ! nat d)) (arange 0 (int (length counts))))"
    by (simp add: dataset_triples_def map_concat comp_def arange_map_int)
qed

lemma get_global_index_map_closed:
  assumes "consistent_counts F dnpf dsnpf dnpd" and "N = sum_list dnpf"
  shows "get_global_index_map N F dnpf dsnpf dnpd =
         Inr \<lparr>file_row = map fst (all_triples dnpd),
              dataset_row = map (fst \<circ> snd) (all_triples dnpd),
              local_row = map (snd \<circ> snd) (all_triples dnpd)\<rparr>"
proof -
  define n where "n = length dnpf"
  define Z where "Z = \<lparr>file_row = replicate (nat N) (0::int), dataset_row = replicate (nat N) 0,
                       local_row = replicate (nat N) 0\<rparr>"
  define fs where "fs = arange 0 F"
  have F: "F = int n" and lens: "length dsnpf = n" "length dnpd = n"
    and per: "\<forall>f < n. dsnpf ! f = int (length (dnpd ! f)) \<and> dnpf ! f = sum_list (dnpd ! f)
                \<and> (\<forall>c \<in> set (dnpd ! f). 0 \<le> c)"
    using assms(1) by (simp_all add: consistent_counts_def n_def)
  have fs: "fs = map int [0..<n]" by (simp add: fs_def F arange_map_int)
  have nonneg: "\<forall>x \<in> set dnpf. 0 \<le> x"
  proof
    fix x assume "x \<in> set dnpf"
    then obtain f where "f < n" "x = dnpf ! f" by (auto simp: in_set_conv_nth n_def)
    then show "0 \<le> x" using per by (simp add: sum_list_nonneg)
  qed
  then have N: "0 \<le> N" using assms(2) by (simp add: sum_list_nonneg)
  have total: "sum_list (map (\<lambda>f. dnpf ! nat f) fs) = N"
    by (simp add: fs comp_def map_nth n_def assms(2))
  have run: "file_loop dnpf dsnpf dnpd fs Z 0 =
         Inr (Z\<lparr>file_row := overwrite (file_row Z) (nat 0)
                   (concat (map (\<lambda>f. replicate (nat (dnpf ! nat f)) f) fs)),
                dataset_row := overwrite (dataset_row Z) (nat 0)
                   (concat (map (\<lambda>f. concat (map (\<lambda>d. replicate (nat (dnpd ! nat f ! nat d)) d)
                                                (arange 0 (dsnpf ! nat f)))) fs)),
                local_row := overwrite (local_row Z) (nat 0)
                   (concat (map (\<lambda>f. concat (map (\<lambda>d. arange 0 (dnpd ! nat f ! nat d))
                                                (arange 0 (dsnpf ! nat f)))) fs))\<rparr>)"
  proof (rule file_loop_closed [OF assms(1)])
    show "\<forall>f \<in> set fs. 0 \<le> f \<and> f < int (length dnpf)" by (auto simp: fs n_def)
    show "(0::int) \<le> 0" by simp
    show "0 + sum_list (map (\<lambda>f. dnpf ! nat f) fs) \<le> int (length (file_row Z))"
      using N by (simp add: total Z_def)
    show "length (dataset_row Z) = length (file_row Z)" by (simp add: Z_def)
    show "length (local_row Z) = length (file_row Z)" by (simp add: Z_def)
  qed
  have blk: "\<forall>f < n. map fst (dataset_triples (int f) (dnpd ! f)) = replicate (nat (dnpf ! f)) (int f)
      \<and> map (fst \<circ> snd) (dataset_triples (int f) (dnpd ! f)) =
          concat (map (\<lambda>d. replicate (nat (dnpd ! f ! nat d)) d) (arange 0 (dsnpf ! f)))
      \<and> map (snd \<circ> snd) (dataset_triples (int f) (dnpd ! f)) =
          concat (map (\<lambda>d. arange 0 (dnpd ! f ! nat d)) (arange 0 (dsnpf ! f)))"
    using per dataset_triples_rows by simp
  have r0: "concat (map (\<lambda>f. replicate (nat (dnpf ! nat f)) f) fs) = map (fst) (all_triples dnpd)"
  proof -
    have e: "map (\<lambda>f. replicate (nat (dnpf ! f)) (int f)) [0..<n]
          = map (\<lambda>f. map (fst) (dataset_triples (int f) (dnpd ! f))) [0..<n]"
      using blk by (intro map_cong) auto
    have "concat (map (\<lambda>f. replicate (nat (dnpf ! nat f)) f) fs) = concat (map (\<lambda>f. replicate (nat (dnpf ! f)) (int f)) [0..<n])"
      by (simp add: fs comp_def)
    also have "\<dots> = concat (map (\<lambda>f. map (fst) (dataset_triples (int f) (dnpd ! f))) [0..<n])"
      by (simp only: e)
    also have "\<dots> = map (fst) (all_triples dnpd)"
      by (simp add: all_triples_def map_concat lens comp_def)
    finally show ?thesis .
  qed
  have r1: "concat (map (\<lambda>f. concat (map (\<lambda>d. replicate (nat (dnpd ! nat f ! nat d)) d) (arange 0 (dsnpf ! nat f)))) fs) = map (fst \<circ> snd) (all_triples dnpd)"
  proof -
    have e: "map (\<lambda>f. concat (map (\<lambda>d. replicate (nat (dnpd ! f ! nat d)) d) (arange 0 (dsnpf ! f)))) [0..<n]
          = map (\<lambda>f. map (fst \<circ> snd) (dataset_triples (int f) (dnpd ! f))) [0..<n]"
      using blk by (intro map_cong) auto
    have "concat (map (\<lambda>f. concat (map (\<lambda>d. replicate (nat (dnpd ! nat f ! nat d)) d) (arange 0 (dsnpf ! nat f)))) fs) = concat (map (\<lambda>f. concat (map (\<lambda>d. replicate (nat (dnpd ! f ! nat d)) d) (arange 0 (dsnpf ! f)))) [0..<n])"
      by (simp add: fs comp_def)
    also have "\<dots> = concat (map (\<lambda>f. map (fst \<circ> snd) (dataset_triples (int f) (dnpd ! f))) [0..<n])"
      by (simp only: e)
    also have "\<dots> = map (fst \<circ> snd) (all_triples dnpd)"
      by (simp add: all_triples_def map_concat lens comp_def)
    finally show ?thesis .
  qed
  have r2: "concat (map (\<lambda>f. concat (map (\<lambda>d. arange 0 (dnpd ! nat f ! nat d)) (arange 0 (dsnpf ! nat f)))) fs) = map (snd \<circ> snd) (all_triples dnpd)"
  proof -
    have e: "map (\<lambda>f. concat (map (\<lambda>d. arange 0 (dnpd ! f ! nat d)) (arange 0 (dsnpf ! f)))) [0..<n]
          = map (\<lambda>f. map (snd \<circ> snd) (dataset_triples (int f) (dnpd ! f))) [0..<n]"
      using blk by (intro map_cong) auto
    have "concat (map (\<lambda>f. concat (map (\<lambda>d. arange 0 (dnpd ! nat f ! nat d)) (arange 0 (dsnpf ! nat f)))) fs) = concat (map (\<lambda>f. concat (map (\<lambda>d. arange 0 (dnpd ! f ! nat d)) (arange 0 (dsnpf ! f)))) [0..<n])"
      by (simp add: fs comp_def)
    also have "\<dots> = concat (map (\<lambda>f. map (snd \<circ> snd) (dataset_triples (int f) (dnpd ! f))) [0..<n])"
      by (simp only: e)
    also have "\<dots> = map (snd \<circ> snd) (all_triples dnpd)"
      by (simp add: all_triples_def map_concat lens comp_def)
    finally show ?thesis .
  qed
  have len: "length (all_triples dnpd) = nat N"
  proof -
    have "length (map fst (all_triples dnpd)) = sum_list (map (\<lambda>f. nat (dnpf ! nat f)) fs)"
      unfolding r0 [symmetric] by (simp add: length_concat_map comp_def)
    also have "\<dots> = nat (sum_list (map (\<lambda>f. dnpf ! nat f) fs))"
      using nat_sum_list_nonneg [of fs "\<lambda>f. dnpf ! nat f"] nonneg
      by (auto simp: fs n_def)
    finally show ?thesis by (simp add: total)
  qed
  show ?thesis
    using N run unfolding r0 r1 r2
    by (simp add: get_global_index_map_def fs_def [symmetric] Z_def [symmetric])
       (simp add: Z_def overwrite_all len)
qed


lemma sorted_concat_upt:
  fixes g :: "nat \<Rightarrow> ('a::linorder) list"
  assumes "\<forall>i < n. sorted (g i)"
    and "\<forall>i j. i < j \<longrightarrow> j < n \<longrightarrow> (\<forall>x \<in> set (g i). \<forall>y \<in> set (g j). x \<le> y)"
  shows "sorted (concat (map g [0..<n]))"
  using assms
proof (induction n)
  case 0
  then show ?case by simp
next
  case (Suc n)
  have "sorted (concat (map g [0..<n]))" using Suc by simp
  moreover have "sorted (g n)" using Suc.prems(1) by simp
  moreover have "\<forall>x \<in> set (concat (map g [0..<n])). \<forall>y \<in> set (g n). x \<le> y"
    using Suc.prems(2) by auto
  ultimately show ?case by (simp add: sorted_append)
qed

lemma sorted_map_upt:
  fixes h :: "nat \<Rightarrow> 'a::linorder"
  assumes "\<forall>i j. i \<le> j \<longrightarrow> j < m \<longrightarrow> h i \<le> h j"
  shows "sorted (map h [0..<m])"
  using assms by (simp add: sorted_iff_nth_mono)

lemma set_dataset_triples:
  "t \<in> set (dataset_triples f counts) \<Longrightarrow>
     fst t = f \<and> (\<exists>d < length counts. fst (snd t) = int d \<and> 0 \<le> snd (snd t))"
  by (auto simp: dataset_triples_def)

lemma sorted_dataset_triples: "sorted (dataset_triples f counts)"
  unfolding dataset_triples_def
  by (rule sorted_concat_upt) (auto intro!: sorted_map_upt)

lemma sorted_all_triples: "sorted (all_triples dnpd)"
  unfolding all_triples_def
proof (rule sorted_concat_upt, goal_cases)
  case 1
  then show ?case by (simp add: sorted_dataset_triples)
next
  case 2
  show ?case
  proof (intro allI impI ballI)
    fix i j x y
    assume "i < j" "x \<in> set (dataset_triples (int i) (dnpd ! i))"
      "y \<in> set (dataset_triples (int j) (dnpd ! j))"
    then have "fst x < fst y"
      using set_dataset_triples [of x "int i" "dnpd ! i"] set_dataset_triples [of y "int j" "dnpd ! j"]
      by simp
    then show "x \<le> y" by (simp add: less_eq_prod_def)
  qed
qed


lemma concat_single:
  "concat (map (\<lambda>i. if i = a then B i else []) [0..<n]) = (if a < n then B a else [])"
  by (induction n) auto

lemma filter_dataset_triples:
  "filter (\<lambda>t. fst t = f \<and> fst (snd t) = d) (dataset_triples f' counts) =
     (if f' = f \<and> 0 \<le> d \<and> nat d < length counts
      then map (\<lambda>k. (f, d, int k)) [0..<nat (counts ! nat d)] else [])"
proof -
  have "filter (\<lambda>t. fst t = f \<and> fst (snd t) = d) (dataset_triples f' counts) =
        concat (map (\<lambda>i. if i = nat d then (if f' = f \<and> 0 \<le> d
                   then map (\<lambda>k. (f, d, int k)) [0..<nat (counts ! i)] else []) else [])
                 [0..<length counts])"
    unfolding dataset_triples_def filter_concat map_map
    by (intro arg_cong [where f = concat] map_cong) (auto simp: filter_empty_conv)
  then show ?thesis
    using concat_single [of "nat d" "\<lambda>i. if f' = f \<and> 0 \<le> d
                   then map (\<lambda>k. (f, d, int k)) [0..<nat (counts ! i)] else []" "length counts"]
    by simp
qed

lemma filter_all_triples:
  "filter (\<lambda>t. fst t = f \<and> fst (snd t) = d) (all_triples dnpd) =
     (if 0 \<le> f \<and> nat f < length dnpd \<and> 0 \<le> d \<and> nat d < length (dnpd ! nat f)
      then map (\<lambda>k. (f, d, int k)) [0..<nat (dnpd ! nat f ! nat d)] else [])"
proof -
  have "filter (\<lambda>t. fst t = f \<and> fst (snd t) = d) (all_triples dnpd) =
        concat (map (\<lambda>i. if i = nat f then (if 0 \<le> f \<and> 0 \<le> d \<and> nat d < length (dnpd ! i)
                   then map (\<lambda>k. (f, d, int k)) [0..<nat (dnpd ! i ! nat d)] else []) else [])
                 [0..<length dnpd])"
    unfolding all_triples_def filter_concat map_map
    by (intro arg_cong [where f = concat] map_cong) (auto simp: filter_dataset_triples)
  then show ?thesis
    using concat_single [of "nat f" "\<lambda>i. if 0 \<le> f \<and> 0 \<le> d \<and> nat d < length (dnpd ! i)
                   then map (\<lambda>k. (f, d, int k)) [0..<nat (dnpd ! i ! nat d)] else []" "length dnpd"]
    by simp
qed


lemma filter_positions:
  "map (\<lambda>g. \<phi> (T ! g)) (filter (\<lambda>g. P (T ! g)) [0..<length T]) = map \<phi> (filter P T)"
proof -
  have "map \<phi> (filter P (map ((!) T) [0..<length T]))
        = map (\<lambda>g. \<phi> (T ! g)) (filter (\<lambda>g. P (T ! g)) [0..<length T])"
    by (simp add: filter_map comp_def)
  then show ?thesis by (simp add: map_nth)
qed

lemma triples_monotonic:
  fixes T :: "(int \<times> int \<times> int) list"
  assumes "sorted T"
    and "\<And>f d. \<exists>m. filter (\<lambda>t. fst t = f \<and> fst (snd t) = d) T = map (\<lambda>k. (f, d, int k)) [0..<m]"
  shows "monotonic_map \<lparr>file_row = map fst T, dataset_row = map (fst \<circ> snd) T,
                         local_row = map (snd \<circ> snd) T\<rparr>"
proof -
  define h where "h = \<lparr>file_row = map fst T, dataset_row = map (fst \<circ> snd) T,
                         local_row = map (snd \<circ> snd) T\<rparr>"
  have le: "\<And>i j. i \<le> j \<Longrightarrow> j < length T \<Longrightarrow> T ! i \<le> T ! j"
    using assms(1) by (simp add: sorted_iff_nth_mono)
  have p1: "sorted (file_row h)"
    unfolding h_def using le by (auto simp: sorted_iff_nth_mono less_eq_prod_def dest!: le)
  have p2: "\<forall>i j. i \<le> j \<and> j < length (file_row h) \<and> file_row h ! i = file_row h ! j
            \<longrightarrow> dataset_row h ! i \<le> dataset_row h ! j"
  proof (intro allI impI)
    fix i j assume a: "i \<le> j \<and> j < length (file_row h) \<and> file_row h ! i = file_row h ! j"
    then have "T ! i \<le> T ! j" using le by (simp add: h_def)
    then show "dataset_row h ! i \<le> dataset_row h ! j"
      using a by (auto simp: h_def less_eq_prod_def)
  qed
  have p3: "\<forall>i j k. i \<le> j \<and> j \<le> k \<and> k < length (file_row h)
            \<and> file_row h ! i = file_row h ! k \<and> dataset_row h ! i = dataset_row h ! k
            \<longrightarrow> file_row h ! j = file_row h ! i \<and> dataset_row h ! j = dataset_row h ! i"
  proof (intro allI impI)
    fix i j k assume a: "i \<le> j \<and> j \<le> k \<and> k < length (file_row h)
            \<and> file_row h ! i = file_row h ! k \<and> dataset_row h ! i = dataset_row h ! k"
    then have "T ! i \<le> T ! j" "T ! j \<le> T ! k" using le by (simp_all add: h_def)
    then show "file_row h ! j = file_row h ! i \<and> dataset_row h ! j = dataset_row h ! i"
      using a by (auto simp: h_def less_eq_prod_def)
  qed
  have p4: "\<forall>f d. map (\<lambda>g. local_row h ! g) (globals_of h f d)
              = map int [0..<length (globals_of h f d)]"
  proof (intro allI)
    fix f d
    obtain m where m: "filter (\<lambda>t. fst t = f \<and> fst (snd t) = d) T = map (\<lambda>k. (f, d, int k)) [0..<m]"
      using assms(2) by blast
    have g: "globals_of h f d = filter (\<lambda>g. fst (T ! g) = f \<and> fst (snd (T ! g)) = d) [0..<length T]"
      unfolding globals_of_def h_def by (auto intro: filter_cong)
    have items: "map (\<lambda>g. T ! g) (globals_of h f d) = map (\<lambda>k. (f, d, int k)) [0..<m]"
      unfolding g m [symmetric]
      using filter_positions [of "\<lambda>t. t" T "\<lambda>t. fst t = f \<and> fst (snd t) = d"] by simp
    have "length (map (\<lambda>g. T ! g) (globals_of h f d)) = m"
      unfolding items by simp
    then have len: "length (globals_of h f d) = m" by simp
    have inr: "\<forall>g \<in> set (globals_of h f d). g < length T"
      unfolding g by simp
    have "map (\<lambda>g. local_row h ! g) (globals_of h f d)
          = map (snd \<circ> snd) (map (\<lambda>g. T ! g) (globals_of h f d))"
      using inr by (simp add: h_def)
    also have "\<dots> = map int [0..<m]"
      unfolding items by (simp add: comp_def)
    finally show "map (\<lambda>g. local_row h ! g) (globals_of h f d)
              = map int [0..<length (globals_of h f d)]" by (simp add: len)
  qed
  show ?thesis
    using p1 p2 p3 p4 unfolding monotonic_map_def h_def [symmetric] by (simp add: h_def)
qed

text \<open>
  Claim C6 asks only that \<open>data_num_total\<close> be the sum of the per-file counts.  With two
  files of 3 and 1 samples, where the only dataset of the first file is recorded with 2
  samples, the local indices of the three samples of (file 0, dataset 0) are 0, 1, 0.
\<close>

theorem index_map_inconsistent_counterexample:
  "(4::int) = sum_list [3, 1]
   \<and> get_global_index_map 4 2 [3, 1] [1, 1] [[2], [1]] =
       Inr \<lparr>file_row = [0, 0, 0, 1], dataset_row = [0, 0, 0, 0], local_row = [0, 1, 0, 0]\<rparr>
   \<and> \<not> monotonic_map \<lparr>file_row = [0, 0, 0, 1], dataset_row = [0, 0, 0, 0], local_row = [0, 1, 0, 0]\<rparr>"
proof -
  define h where "h = \<lparr>file_row = [0, 0, 0, 1::int], dataset_row = [0, 0, 0, 0::int],
                       local_row = [0, 1, 0, 0::int]\<rparr>"
  have run: "get_global_index_map 4 2 [3, 1] [1, 1] [[2], [1]] = Inr h"
    unfolding h_def by code_simp
  have g: "globals_of h 0 0 = [0, 1, 2]"
    unfolding h_def by code_simp
  have "\<not> monotonic_map h"
  proof
    assume "monotonic_map h"
    then have "map (\<lambda>g. local_row h ! g) (globals_of h 0 0)
               = map int [0..<length (globals_of h 0 0)]"
      by (simp add: monotonic_map_def)
    then have "map (\<lambda>g. local_row h ! g) [0, 1, 2] = map int [0..<length [0, 1, 2::nat]]"
      unfolding g .
    then show False by (simp add: h_def upt_rec)
  qed
  then show ?thesis using run by (simp add: h_def)
qed

text \<open>
  Claim C6, amended.  When the counts are consistent (one entry per file in each list,
  \<open>dataset_num_per_file[f]\<close> datasets recorded for file \<open>f\<close>, no negative count, and the
  samples of every file the sum of the samples of its datasets) and \<open>data_num_total\<close> is
  the sum of the per-file counts, the map is returned and is monotonic: the file index
  does not decrease, the dataset index does not decrease within a file, the global
  indices of a (file, dataset) pair are contiguous, and the local indices within
  dataset \<open>d\<close> of file \<open>f\<close> are \<open>0, 1, ..., data_num_per_dataset[f][d] - 1\<close>.
\<close>

theorem get_global_index_map_monotonic:
  assumes "consistent_counts file_num dnpf dsnpf dnpd" and "data_num_total = sum_list dnpf"
  shows "\<exists>h. get_global_index_map data_num_total file_num dnpf dsnpf dnpd = Inr h
           \<and> length (file_row h) = nat data_num_total
           \<and> monotonic_map h
           \<and> (\<forall>f < length dnpd. \<forall>d < length (dnpd ! f).
                 map (\<lambda>g. local_row h ! g) (globals_of h (int f) (int d))
                 = map int [0..<nat (dnpd ! f ! d)])"
proof -
  define T where "T = all_triples dnpd"
  define h where "h = \<lparr>file_row = map fst T, dataset_row = map (fst \<circ> snd) T,
                         local_row = map (snd \<circ> snd) T\<rparr>"
  have eq: "get_global_index_map data_num_total file_num dnpf dsnpf dnpd = Inr h"
    using get_global_index_map_closed [OF assms] by (simp add: h_def T_def)
  have runs: "\<And>f d. \<exists>m. filter (\<lambda>t. fst t = f \<and> fst (snd t) = d) T = map (\<lambda>k. (f, d, int k)) [0..<m]"
  proof -
    fix f d
    show "\<exists>m. filter (\<lambda>t. fst t = f \<and> fst (snd t) = d) T = map (\<lambda>k. (f, d, int k)) [0..<m]"
    proof (cases "0 \<le> f \<and> nat f < length dnpd \<and> 0 \<le> d \<and> nat d < length (dnpd ! nat f)")
      case True
      then show ?thesis unfolding T_def filter_all_triples by auto
    next
      case False
      have "filter (\<lambda>t. fst t = f \<and> fst (snd t) = d) T = []"
        by (simp only: T_def filter_all_triples False if_False)
      then have "filter (\<lambda>t. fst t = f \<and> fst (snd t) = d) T = map (\<lambda>k. (f, d, int k)) [0..<0]"
        by simp
      then show ?thesis by blast
    qed
  qed
  have mono: "monotonic_map h"
    unfolding h_def by (rule triples_monotonic) (simp_all add: T_def sorted_all_triples runs [unfolded T_def])
  have len: "length (file_row h) = nat data_num_total"
  proof -
    have "nat data_num_total = sum_list (map nat dnpf)"
    proof -
      have "\<forall>x \<in> set dnpf. 0 \<le> x"
      proof
        fix x assume "x \<in> set dnpf"
        then obtain f where "f < length dnpf" "x = dnpf ! f" by (auto simp: in_set_conv_nth)
        then show "0 \<le> x" using assms(1) by (simp add: consistent_counts_def sum_list_nonneg)
      qed
      then show ?thesis using nat_sum_list_nonneg [of dnpf "\<lambda>x. x"] assms(2) by simp
    qed
    moreover have "length T = sum_list (map nat dnpf)"
    proof -
      have "map (\<lambda>f. length (dataset_triples (int f) (dnpd ! f))) [0..<length dnpd]
            = map (\<lambda>f. nat (dnpf ! f)) [0..<length dnpd]"
      proof (intro map_cong refl)
        fix f assume "f \<in> set [0..<length dnpd]"
        then have f: "f < length dnpf" using assms(1) by (simp add: consistent_counts_def)
        then have c: "dnpf ! f = sum_list (dnpd ! f)" "\<forall>c \<in> set (dnpd ! f). 0 \<le> c"
          using assms(1) by (simp_all add: consistent_counts_def)
        have "length (map fst (dataset_triples (int f) (dnpd ! f))) = nat (dnpf ! f)"
          unfolding dataset_triples_rows(1) [OF c(2)] by (simp add: c(1))
        then show "length (dataset_triples (int f) (dnpd ! f)) = nat (dnpf ! f)" by simp
      qed
      moreover have "length dnpd = length dnpf" using assms(1) by (simp add: consistent_counts_def)
      moreover have "map (\<lambda>f. nat (dnpf ! f)) [0..<length dnpf] = map nat dnpf"
        using map_nat_counts [of dnpf] by (simp add: arange_map_int comp_def)
      ultimately show ?thesis
        by (simp add: T_def all_triples_def length_concat_map)
    qed
    ultimately show ?thesis by (simp add: h_def)
  qed
  have local: "\<forall>f < length dnpd. \<forall>d < length (dnpd ! f).
                 map (\<lambda>g. local_row h ! g) (globals_of h (int f) (int d))
                 = map int [0..<nat (dnpd ! f ! d)]"
  proof (intro allI impI)
    fix f d assume fd: "f < length dnpd" "d < length (dnpd ! f)"
    have g: "globals_of h (int f) (int d)
             = filter (\<lambda>g. fst (T ! g) = int f \<and> fst (snd (T ! g)) = int d) [0..<length T]"
      unfolding globals_of_def h_def by (auto intro: filter_cong)
    have items: "map (\<lambda>g. T ! g) (globals_of h (int f) (int d))
                 = map (\<lambda>k. (int f, int d, int k)) [0..<nat (dnpd ! f ! d)]"
      unfolding g
      using filter_positions [of "\<lambda>t. t" T "\<lambda>t. fst t = int f \<and> fst (snd t) = int d"] fd
      by (simp add: T_def filter_all_triples)
    have inr: "\<forall>g \<in> set (globals_of h (int f) (int d)). g < length T"
      unfolding g by simp
    have "map (\<lambda>g. local_row h ! g) (globals_of h (int f) (int d))
          = map (snd \<circ> snd) (map (\<lambda>g. T ! g) (globals_of h (int f) (int d)))"
      using inr by (simp add: h_def)
    also have "\<dots> = map int [0..<nat (dnpd ! f ! d)]"
      unfolding items by (simp add: comp_def)
    finally show "map (\<lambda>g. local_row h ! g) (globals_of h (int f) (int d))
                 = map int [0..<nat (dnpd ! f ! d)]" .
  qed
  show ?thesis using eq len mono local by blast
qed

lemma example_index_map:
  "get_global_index_map 6 2 [3, 3] [2, 1] [[2, 1], [3]] =
     Inr \<lparr>file_row = [0, 0, 0, 1, 1, 1], dataset_row = [0, 0, 1, 0, 0, 0],
          local_row = [0, 1, 0, 0, 1, 2]\<rparr>"
  by code_simp

theorem get_global_index_map_monotonic_witness:
  "consistent_counts 2 [3, 3] [2, 1] [[2, 1], [3]] \<and> (6::int) = sum_list [3, 3]
   \<and> monotonic_map \<lparr>file_row = [0, 0, 0, 1, 1, 1], dataset_row = [0, 0, 1, 0, 0, 0],
                      local_row = [0, 1, 0, 0, 1, 2]\<rparr>"
proof -
  have c: "consistent_counts 2 [3, 3] [2, 1] [[2, 1], [3]]"
    by (simp add: consistent_counts_def less_Suc_eq numeral_2_eq_2)
  show ?thesis
    using get_global_index_map_monotonic [OF c, of 6] c by (simp add: example_index_map)
qed

section \<open>Batches as contiguous reads\<close>

lemma sorted_list_of_set_min:
  fixes S :: "int set"
  assumes "finite S" and "\<forall>y \<in> S. a \<le> y"
  shows "sorted_list_of_set (insert a S) = a # sorted_list_of_set (S - {a})"
proof -
  have "Min (insert a S) = a" using assms by (intro Min_eqI) auto
  then show ?thesis
    using sorted_list_of_set_nonempty [of "insert a S"] assms(1) by simp
qed

lemma sorted_groups:
  fixes k :: "'a \<Rightarrow> int"
  assumes "sorted (map k xs)"
  shows "concat (map (\<lambda>a. filter (\<lambda>x. k x = a) xs) (sorted_list_of_set (k ` set xs))) = xs"
  using assms
proof (induction xs)
  case Nil
  then show ?case by simp
next
  case (Cons x xs)
  define a where "a = k x"
  define S where "S = k ` set xs"
  define L' where "L' = sorted_list_of_set (S - {a})"
  have fin: "finite S" by (simp add: S_def)
  have low: "\<forall>y \<in> S. a \<le> y" using Cons.prems by (auto simp: S_def a_def)
  have L: "sorted_list_of_set (k ` set (x # xs)) = a # L'"
    using sorted_list_of_set_min [OF fin low] by (simp add: a_def S_def L'_def)
  have notin: "a \<notin> set L'" using fin by (simp add: L'_def)
  have other: "map (\<lambda>b. filter (\<lambda>y. k y = b) (x # xs)) L' = map (\<lambda>b. filter (\<lambda>y. k y = b) xs) L'"
    using notin by (intro map_cong) (auto simp: a_def)
  have ih: "concat (map (\<lambda>b. filter (\<lambda>y. k y = b) xs) (sorted_list_of_set S)) = xs"
    using Cons by (simp add: S_def)
  have rest: "filter (\<lambda>y. k y = a) xs @ concat (map (\<lambda>b. filter (\<lambda>y. k y = b) xs) L') = xs"
  proof (cases "a \<in> S")
    case True
    then have "insert a S = S" by auto
    then have "sorted_list_of_set S = a # L'"
      using sorted_list_of_set_min [OF fin low] by (simp add: L'_def)
    then show ?thesis using ih by simp
  next
    case False
    then have "S - {a} = S" by auto
    moreover have "filter (\<lambda>y. k y = a) xs = []"
      using False by (auto simp: filter_empty_conv S_def)
    ultimately show ?thesis using ih by (simp add: L'_def)
  qed
  have "concat (map (\<lambda>b. filter (\<lambda>y. k y = b) (x # xs)) (a # L'))
        = filter (\<lambda>y. k y = a) (x # xs) @ concat (map (\<lambda>b. filter (\<lambda>y. k y = b) (x # xs)) L')"
    by simp
  also have "\<dots> = (x # filter (\<lambda>y. k y = a) xs) @ concat (map (\<lambda>b. filter (\<lambda>y. k y = b) xs) L')"
    unfolding other by (simp add: a_def)
  also have "\<dots> = x # xs" using rest by simp
  finally show ?case unfolding L .
qed

lemma interval_filter:
  assumes "\<forall>i j k. s \<le> i \<and> i \<le> j \<and> j \<le> k \<and> k < e \<and> P i \<and> P k \<longrightarrow> P j"
  shows "\<exists>a b. filter P [s..<e] = [a..<b]"
  using assms
proof (induction e)
  case 0
  have "filter P [s..<0] = [0..<0]" by simp
  then show ?case by blast
next
  case (Suc e)
  have "\<forall>i j k. s \<le> i \<and> i \<le> j \<and> j \<le> k \<and> k < e \<and> P i \<and> P k \<longrightarrow> P j"
    using Suc.prems by (meson less_Suc_eq)
  from Suc.IH [OF this] obtain a b where ab: "filter P [s..<e] = [a..<b]" by blast
  show ?case
  proof (cases "s \<le> e \<and> P e")
    case False
    then have "filter P [s..<Suc e] = [a..<b]" using ab by auto
    then show ?thesis by blast
  next
    case True
    then have app: "filter P [s..<Suc e] = [a..<b] @ [e]" using ab by simp
    show ?thesis
    proof (cases "a < b")
      case False
      then have "filter P [s..<Suc e] = [e..<Suc e]" using app by simp
      then show ?thesis by blast
    next
      case ab': True
      then have "b - 1 \<in> set (filter P [s..<e])" unfolding ab by auto
      then have last: "P (b - 1)" "s \<le> b - 1" "b - 1 < e" by auto
      have "b = e"
      proof (rule ccontr)
        assume "b \<noteq> e"
        then have "b < e" using last by linarith
        have "P b" using Suc.prems last True \<open>b < e\<close>
          by (metis diff_le_self le_eq_less_or_eq lessI less_imp_diff_less linorder_not_less
              nat_less_le not_less_eq)
        then have "b \<in> set (filter P [s..<e])" using \<open>b < e\<close> last by auto
        then show False unfolding ab by simp
      qed
      then have "filter P [s..<Suc e] = [a..<Suc e]" using app ab' last by simp
      then show ?thesis by blast
    qed
  qed
qed

lemma py_slice_range:
  assumes "s \<le> e" and "e \<le> length row"
  shows "py_slice row (int s) (int e) = map (\<lambda>g. row ! g) [s..<e]"
proof -
  have "norm_idx (length row) (int s) = s" "norm_idx (length row) (int e) = e"
    using assms by (simp_all add: norm_idx_def)
  then have "py_slice row (int s) (int e) = take (e - s) (drop s row)"
    by (simp add: py_slice_def Let_def)
  also have "\<dots> = map (\<lambda>g. row ! g) [s..<e]"
    using assms by (auto intro!: nth_equalityI)
  finally show ?thesis .
qed

lemma select_data_range:
  "select_data (map (\<lambda>g. fr ! g) gs) (map (\<lambda>g. dr ! g) gs) (map (\<lambda>g. lr ! g) gs) fi di
   = map (\<lambda>g. lr ! g) (filter (\<lambda>g. fr ! g = fi \<and> dr ! g = di) gs)"
  unfolding select_data_def by (induction gs) auto

lemma dataset_range_of_range:
  "dataset_range_of (map (\<lambda>g. fr ! g) gs) (map (\<lambda>g. dr ! g) gs) fi
   = sorted_list_of_set ((\<lambda>g. dr ! g) ` set (filter (\<lambda>g. fr ! g = fi) gs))"
proof -
  have "map snd (filter (\<lambda>(f, d). f = fi) (zip (map (\<lambda>g. fr ! g) gs) (map (\<lambda>g. dr ! g) gs)))
        = map (\<lambda>g. dr ! g) (filter (\<lambda>g. fr ! g = fi) gs)"
    by (induction gs) auto
  then show ?thesis by (simp add: dataset_range_of_def np_unique_def)
qed

lemma monotonic_step:
  assumes "monotonic_map h" and "Suc g < length (file_row h)"
    and "file_row h ! g = file_row h ! Suc g" and "dataset_row h ! g = dataset_row h ! Suc g"
  shows "local_row h ! Suc g = local_row h ! g + 1"
proof -
  define N where "N = length (file_row h)"
  define f where "f = file_row h ! g"
  define d where "d = dataset_row h ! g"
  define P where "P = (\<lambda>g. file_row h ! g = f \<and> dataset_row h ! g = d)"
  define A where "A = filter P [0..<g]"
  define C where "C = filter P [Suc (Suc g)..<N]"
  have gN: "Suc g < N" using assms(2) by (simp add: N_def)
  have "[0..<N] = [0..<g] @ [g..<N]"
    using upt_add_eq_append [of 0 g "N - g"] gN by simp
  also have "[g..<N] = g # [Suc g..<N]" using gN by (simp add: upt_conv_Cons)
  also have "[Suc g..<N] = Suc g # [Suc (Suc g)..<N]" using gN by (simp add: upt_conv_Cons)
  finally have "[0..<N] = [0..<g] @ [g, Suc g] @ [Suc (Suc g)..<N]" by simp
  then have G: "globals_of h f d = A @ [g, Suc g] @ C"
    using assms(3,4) by (simp add: globals_of_def N_def A_def C_def P_def f_def d_def)
  have loc: "map (\<lambda>g. local_row h ! g) (globals_of h f d) = map int [0..<length (globals_of h f d)]"
    using assms(1) by (simp add: monotonic_map_def)
  have p0: "length A < length (globals_of h f d)" and p1: "Suc (length A) < length (globals_of h f d)"
    by (simp_all add: G)
  have "map (\<lambda>g. local_row h ! g) (globals_of h f d) ! length A = int (length A)"
    unfolding loc using p0 by simp
  then have l0: "local_row h ! g = int (length A)"
    using p0 by (simp add: G nth_append)
  have "map (\<lambda>g. local_row h ! g) (globals_of h f d) ! Suc (length A) = int (Suc (length A))"
    unfolding loc using p1 by (simp del: upt_Suc)
  then have l1: "local_row h ! Suc g = int (Suc (length A))"
    using p1 by (simp add: G nth_append)
  show ?thesis using l0 l1 by simp
qed

lemma monotonic_run:
  assumes "monotonic_map h" and "b \<le> length (file_row h)"
    and "\<forall>g. a \<le> g \<and> g < b \<longrightarrow> file_row h ! g = f \<and> dataset_row h ! g = d"
    and "a + t < b"
  shows "local_row h ! (a + t) = local_row h ! a + int t"
  using assms(4)
proof (induction t)
  case 0
  then show ?case by simp
next
  case (Suc t)
  have "local_row h ! Suc (a + t) = local_row h ! (a + t) + 1"
    using Suc.prems assms(2,3) by (intro monotonic_step [OF assms(1)]) auto
  then show ?case using Suc by simp
qed

lemma upto_shift: "[l..l + int m - 1] = map (\<lambda>t. l + int t) [0..<m]"
proof (induction m)
  case 0
  then show ?case by simp
next
  case (Suc m)
  have "[l..l + int (Suc m) - 1] = [l..l + int m - 1] @ [l + int m]"
    using upto_rec2 [of l "l + int m"] by simp
  then show ?case using Suc by simp
qed

lemma run_ends:
  assumes "monotonic_map h" and "b \<le> length (file_row h)" and "a < b"
    and "\<forall>g. a \<le> g \<and> g < b \<longrightarrow> file_row h ! g = f \<and> dataset_row h ! g = d"
  shows "[Min (set (map (\<lambda>g. local_row h ! g) [a..<b])) .. Max (set (map (\<lambda>g. local_row h ! g) [a..<b])) + 1 - 1]
         = map (\<lambda>g. local_row h ! g) [a..<b]"
proof -
  define l where "l = local_row h ! a"
  define m where "m = b - a"
  have m: "0 < m" using assms(3) by (simp add: m_def)
  have vals: "map (\<lambda>g. local_row h ! g) [a..<b] = map (\<lambda>t. l + int t) [0..<m]"
  proof (rule nth_equalityI)
    show "length (map (\<lambda>g. local_row h ! g) [a..<b]) = length (map (\<lambda>t. l + int t) [0..<m])"
      by (simp add: m_def)
    fix t assume "t < length (map (\<lambda>g. local_row h ! g) [a..<b])"
    then have t: "a + t < b" and t': "t < b - a" by simp_all
    show "map (\<lambda>g. local_row h ! g) [a..<b] ! t = map (\<lambda>t. l + int t) [0..<m] ! t"
      using monotonic_run [OF assms(1,2,4) t] t' by (simp add: l_def m_def)
  qed
  have set: "set (map (\<lambda>t. l + int t) [0..<m]) = (\<lambda>t. l + int t) ` {0..<m}" by simp
  have mn: "Min ((\<lambda>t. l + int t) ` {0..<m}) = l"
    using m by (intro Min_eqI) auto
  have mx: "Max ((\<lambda>t. l + int t) ` {0..<m}) = l + int (m - 1)"
  proof (rule Max_eqI)
    show "finite ((\<lambda>t. l + int t) ` {0..<m})" by simp
    show "\<And>y. y \<in> (\<lambda>t. l + int t) ` {0..<m} \<Longrightarrow> y \<le> l + int (m - 1)" by auto
    have "m - 1 \<in> {0..<m}" using m by simp
    then show "l + int (m - 1) \<in> (\<lambda>t. l + int t) ` {0..<m}" by (rule imageI)
  qed
  have "[l..l + int (m - 1) + 1 - 1] = map (\<lambda>t. l + int t) [0..<m]"
    using upto_shift [of l m] m by (simp add: of_nat_diff)
  then show ?thesis unfolding vals set mn mx .
qed

lemma py_get_nonneg: "0 \<le> i \<Longrightarrow> nat i < length xs \<Longrightarrow> py_get xs i = Inr (xs ! nat i)"
  by (simp add: py_get_def nat_less_iff)

lemma ends_of_datasets_closed:
  assumes "\<forall>di \<in> set dis. 0 \<le> di \<and> nat di < length names \<and> select_data fp dp lp fi di \<noteq> []"
  shows "ends_of_datasets names fp dp lp fi dis acc =
         Inr (acc\<lparr>Datasets := Datasets acc @ map (\<lambda>di. names ! nat di) dis,
                  Ends := Ends acc @ map (\<lambda>di. (Min (set (select_data fp dp lp fi di)),
                                               Max (set (select_data fp dp lp fi di)) + 1)) dis\<rparr>)"
  using assms
proof (induction dis arbitrary: acc)
  case Nil
  then show ?case by simp
next
  case (Cons di dis)
  have di: "py_get names di = Inr (names ! nat di)" "select_data fp dp lp fi di \<noteq> []"
    using Cons.prems by (simp_all add: py_get_nonneg)
  have "\<forall>di \<in> set dis. 0 \<le> di \<and> nat di < length names \<and> select_data fp dp lp fi di \<noteq> []"
    using Cons.prems by simp
  note ih = Cons.IH [OF this]
  show ?case
    by (simp add: di bnd_def Let_def ih)
qed

lemma ends_of_files_closed:
  assumes "\<forall>fi \<in> set fis. 0 \<le> fi \<and> nat fi < length file_list
             \<and> (\<exists>names. source_dict (file_list ! nat fi) = Some names
                   \<and> (\<forall>di \<in> set (dataset_range_of fp dp fi).
                         0 \<le> di \<and> nat di < length names \<and> select_data fp dp lp fi di \<noteq> []))"
  shows "ends_of_files file_list source_dict fp dp lp fis acc =
         Inr (acc\<lparr>files := files acc @ map (\<lambda>fi. file_list ! nat fi) fis,
                  of_file := fold (\<lambda>fi. AList.update (file_list ! nat fi)
                                      (entry_of file_list source_dict fp dp lp fi)) fis (of_file acc)\<rparr>)"
  using assms
proof (induction fis arbitrary: acc)
  case Nil
  then show ?case by simp
next
  case (Cons fi fis)
  obtain names where fi: "0 \<le> fi" "nat fi < length file_list"
    and names: "source_dict (file_list ! nat fi) = Some names"
    and ds: "\<forall>di \<in> set (dataset_range_of fp dp fi).
                0 \<le> di \<and> nat di < length names \<and> select_data fp dp lp fi di \<noteq> []"
    using Cons.prems by auto
  have get: "py_get file_list fi = Inr (file_list ! nat fi)"
    using fi by (simp add: py_get_nonneg)
  have inner: "ends_of_datasets names fp dp lp fi (dataset_range_of fp dp fi) \<lparr>Datasets = [], Ends = []\<rparr>
               = Inr (entry_of file_list source_dict fp dp lp fi)"
    unfolding ends_of_datasets_closed [OF ds] by (simp add: entry_of_def names)
  have "\<forall>fi \<in> set fis. 0 \<le> fi \<and> nat fi < length file_list
             \<and> (\<exists>names. source_dict (file_list ! nat fi) = Some names
                   \<and> (\<forall>di \<in> set (dataset_range_of fp dp fi).
                         0 \<le> di \<and> nat di < length names \<and> select_data fp dp lp fi di \<noteq> []))"
    using Cons.prems by simp
  note ih = Cons.IH [OF this]
  show ?case
    by (simp add: get names inner bnd_def Let_def ih)
qed

lemma map_of_fold_update:
  assumes "inj_on key (set fis)" and "fj \<in> set fis"
  shows "map_of (fold (\<lambda>fi. AList.update (key fi) (val fi)) fis al) (key fj) = Some (val fj)"
  using assms
proof (induction fis rule: rev_induct)
  case Nil
  then show ?case by simp
next
  case (snoc x fis)
  show ?case
  proof (cases "fj = x")
    case True
    then show ?thesis by (simp add: update_conv')
  next
    case False
    then have in': "fj \<in> set fis" using snoc.prems(2) by simp
    have "key fj \<noteq> key x"
      using snoc.prems(1) False in' by (auto simp: inj_on_def)
    moreover have "inj_on key (set fis)" using snoc.prems(1) by (simp add: inj_on_def)
    ultimately show ?thesis using snoc.IH in' by (simp add: update_conv')
  qed
qed

lemma distinct_pairs:
  assumes "distinct fs" and "\<forall>fi \<in> set fs. distinct (D fi)"
  shows "distinct (concat (map (\<lambda>fi. map (Pair fi) (D fi)) fs))"
  using assms by (induction fs) (auto simp: distinct_map inj_on_def)

lemma concat_concat_map: "concat (concat (map f xs)) = concat (map (\<lambda>x. concat (f x)) xs)"
  by (induction xs) auto

lemma zip_map_pair: "zip (map f xs) (map g xs) = map (\<lambda>x. (f x, g x)) xs"
  by (induction xs) auto

lemma monotonic_mapD:
  assumes "monotonic_map h"
  shows "length (dataset_row h) = length (file_row h)"
    and "length (local_row h) = length (file_row h)"
    and "sorted (file_row h)"
    and "\<And>i j. i \<le> j \<Longrightarrow> j < length (file_row h) \<Longrightarrow> file_row h ! i = file_row h ! j
           \<Longrightarrow> dataset_row h ! i \<le> dataset_row h ! j"
    and "\<And>i j k. i \<le> j \<Longrightarrow> j \<le> k \<Longrightarrow> k < length (file_row h)
           \<Longrightarrow> file_row h ! i = file_row h ! k \<Longrightarrow> dataset_row h ! i = dataset_row h ! k
           \<Longrightarrow> file_row h ! j = file_row h ! i \<and> dataset_row h ! j = dataset_row h ! i"
proof -
  from assms have all: "length (dataset_row h) = length (file_row h)
     \<and> length (local_row h) = length (file_row h)
     \<and> sorted (file_row h)
     \<and> (\<forall>i j. i \<le> j \<and> j < length (file_row h) \<and> file_row h ! i = file_row h ! j
            \<longrightarrow> dataset_row h ! i \<le> dataset_row h ! j)
     \<and> (\<forall>i j k. i \<le> j \<and> j \<le> k \<and> k < length (file_row h)
            \<and> file_row h ! i = file_row h ! k \<and> dataset_row h ! i = dataset_row h ! k
            \<longrightarrow> file_row h ! j = file_row h ! i \<and> dataset_row h ! j = dataset_row h ! i)
     \<and> (\<forall>f d. map (\<lambda>g. local_row h ! g) (globals_of h f d)
              = map int [0..<length (globals_of h f d)])"
    unfolding monotonic_map_def .
  from all have a: "length (dataset_row h) = length (file_row h)" by (rule conjunct1)
  from all have b: "length (local_row h) = length (file_row h)"
    by (rule conjunct1 [OF conjunct2])
  from all have c: "sorted (file_row h)"
    by (rule conjunct1 [OF conjunct2 [OF conjunct2]])
  from all have d: "\<forall>i j. i \<le> j \<and> j < length (file_row h) \<and> file_row h ! i = file_row h ! j
            \<longrightarrow> dataset_row h ! i \<le> dataset_row h ! j"
    by (rule conjunct1 [OF conjunct2 [OF conjunct2 [OF conjunct2]]])
  from all have e: "\<forall>i j k. i \<le> j \<and> j \<le> k \<and> k < length (file_row h)
            \<and> file_row h ! i = file_row h ! k \<and> dataset_row h ! i = dataset_row h ! k
            \<longrightarrow> file_row h ! j = file_row h ! i \<and> dataset_row h ! j = dataset_row h ! i"
    by (rule conjunct1 [OF conjunct2 [OF conjunct2 [OF conjunct2 [OF conjunct2]]]])
  show "length (dataset_row h) = length (file_row h)" by (rule a)
  show "length (local_row h) = length (file_row h)" by (rule b)
  show "sorted (file_row h)" by (rule c)
  show "\<And>i j. i \<le> j \<Longrightarrow> j < length (file_row h) \<Longrightarrow> file_row h ! i = file_row h ! j
           \<Longrightarrow> dataset_row h ! i \<le> dataset_row h ! j"
    using d by blast
  show "\<And>i j k. i \<le> j \<Longrightarrow> j \<le> k \<Longrightarrow> k < length (file_row h)
           \<Longrightarrow> file_row h ! i = file_row h ! k \<Longrightarrow> dataset_row h ! i = dataset_row h ! k
           \<Longrightarrow> file_row h ! j = file_row h ! i \<and> dataset_row h ! j = dataset_row h ! i"
    using e by blast
qed

lemma batch_ends_of_covers:
  assumes mono: "monotonic_map h" and names: "names_cover h file_list source_dict"
    and se: "s \<le> e" "e \<le> length (file_row h)"
  shows "\<exists>out. batch_ends_of h (int s, int e) file_list source_dict = Inr out
           \<and> covers h file_list source_dict (int s, int e) out"
proof -
  define fr where "fr = file_row h"
  define dr where "dr = dataset_row h"
  define lr where "lr = local_row h"
  define gs where "gs = [s..<e]"
  define fp where "fp = map (\<lambda>g. fr ! g) gs"
  define dp where "dp = map (\<lambda>g. dr ! g) gs"
  define lp where "lp = map (\<lambda>g. lr ! g) gs"
  define file_range where "file_range = sorted_list_of_set ((\<lambda>g. fr ! g) ` set gs)"
  define fgroup where "fgroup = (\<lambda>fi. filter (\<lambda>g. fr ! g = fi) gs)"
  define dgroup where "dgroup = (\<lambda>fi di. filter (\<lambda>g. fr ! g = fi \<and> dr ! g = di) gs)"
  define drange where "drange = (\<lambda>fi. sorted_list_of_set ((\<lambda>g. dr ! g) ` set (fgroup fi)))"
  define fname where "fname = (\<lambda>fi. file_list ! nat fi)"
  define dname where "dname = (\<lambda>fi di. the (source_dict (fname fi)) ! nat di)"
  define E where "E = entry_of file_list source_dict fp dp lp"
  define smp where "smp = sample_at h file_list source_dict"
  have lens: "length dr = length fr" "length lr = length fr"
    using monotonic_mapD(1,2) [OF mono] by (simp_all add: fr_def dr_def lr_def)
  have inN: "\<And>g. g \<in> set gs \<Longrightarrow> g < length fr" using se by (simp add: gs_def fr_def)
  have P1: "\<And>i j. i \<le> j \<Longrightarrow> j < length fr \<Longrightarrow> fr ! i \<le> fr ! j"
    using monotonic_mapD(3) [OF mono] by (simp add: fr_def sorted_iff_nth_mono)
  have P2: "\<And>i j. i \<le> j \<Longrightarrow> j < length fr \<Longrightarrow> fr ! i = fr ! j \<Longrightarrow> dr ! i \<le> dr ! j"
    unfolding fr_def dr_def by (rule monotonic_mapD(4) [OF mono])
  have P3: "\<And>i j k. i \<le> j \<Longrightarrow> j \<le> k \<Longrightarrow> k < length fr \<Longrightarrow> fr ! i = fr ! k \<Longrightarrow> dr ! i = dr ! k
              \<Longrightarrow> fr ! j = fr ! i \<and> dr ! j = dr ! i"
    unfolding fr_def dr_def by (rule monotonic_mapD(5) [OF mono])
  have cover: "\<And>g. g < length fr \<Longrightarrow> 0 \<le> fr ! g \<and> nat (fr ! g) < length file_list
           \<and> (\<exists>nm. source_dict (fname (fr ! g)) = Some nm \<and> 0 \<le> dr ! g \<and> nat (dr ! g) < length nm)"
    using names unfolding names_cover_def fr_def dr_def fname_def by blast
  have dist: "distinct file_list" using names by (simp add: names_cover_def)

  text \<open>The slices and the two ranges.\<close>
  have slices: "py_slice (file_row h) (int s) (int e) = fp"
    "py_slice (dataset_row h) (int s) (int e) = dp"
    "py_slice (local_row h) (int s) (int e) = lp"
    using se lens
    by (simp_all add: py_slice_range fp_def dp_def lp_def gs_def fr_def dr_def lr_def)
  have frange: "np_unique fp = file_range"
    by (simp add: np_unique_def fp_def file_range_def)
  have drange: "\<And>fi. dataset_range_of fp dp fi = drange fi"
    unfolding fp_def dp_def dataset_range_of_range drange_def fgroup_def ..
  have sel: "\<And>fi di. select_data fp dp lp fi di = map (\<lambda>g. lr ! g) (dgroup fi di)"
    unfolding fp_def dp_def lp_def select_data_range dgroup_def ..
  have set_frange: "set file_range = (\<lambda>g. fr ! g) ` set gs" by (simp add: file_range_def)
  have set_drange: "\<And>fi. set (drange fi) = (\<lambda>g. dr ! g) ` set (fgroup fi)" by (simp add: drange_def)
  have dgroup_ne: "\<And>fi di. fi \<in> set file_range \<Longrightarrow> di \<in> set (drange fi) \<Longrightarrow> dgroup fi di \<noteq> []"
    by (auto simp: set_drange dgroup_def fgroup_def filter_empty_conv)

  text \<open>The loops run through.\<close>
  have ok: "\<forall>fi \<in> set file_range. 0 \<le> fi \<and> nat fi < length file_list
             \<and> (\<exists>nm. source_dict (file_list ! nat fi) = Some nm
                   \<and> (\<forall>di \<in> set (dataset_range_of fp dp fi).
                         0 \<le> di \<and> nat di < length nm \<and> select_data fp dp lp fi di \<noteq> []))"
  proof
    fix fi assume fi: "fi \<in> set file_range"
    then obtain g where g: "g \<in> set gs" "fr ! g = fi" by (auto simp: set_frange)
    from cover [OF inN [OF g(1)]] g(2) obtain nm where
      v: "0 \<le> fi" "nat fi < length file_list" "source_dict (fname fi) = Some nm" by auto
    have "\<forall>di \<in> set (drange fi). 0 \<le> di \<and> nat di < length nm \<and> select_data fp dp lp fi di \<noteq> []"
    proof
      fix di assume di: "di \<in> set (drange fi)"
      then obtain g' where g': "g' \<in> set gs" "fr ! g' = fi" "dr ! g' = di"
        by (auto simp: set_drange fgroup_def)
      from cover [OF inN [OF g'(1)]] g'(2,3) v(3) have "0 \<le> di \<and> nat di < length nm" by auto
      then show "0 \<le> di \<and> nat di < length nm \<and> select_data fp dp lp fi di \<noteq> []"
        using dgroup_ne [OF fi di] by (simp add: sel)
    qed
    then show "0 \<le> fi \<and> nat fi < length file_list
             \<and> (\<exists>nm. source_dict (file_list ! nat fi) = Some nm
                   \<and> (\<forall>di \<in> set (dataset_range_of fp dp fi).
                         0 \<le> di \<and> nat di < length nm \<and> select_data fp dp lp fi di \<noteq> []))"
      using v by (auto simp: drange fname_def)
  qed
  define out where "out = \<lparr>files = map fname file_range,
       of_file = fold (\<lambda>fi. AList.update (fname fi) (E fi)) file_range []\<rparr>"
  have run: "batch_ends_of h (int s, int e) file_list source_dict = Inr out"
    unfolding batch_ends_of_def
    by (simp add: Let_def slices frange ends_of_files_closed [OF ok] out_def fname_def E_def)

  text \<open>The reads of the result.\<close>
  define rd where "rd = (\<lambda>fi di. (fname fi, dname fi di,
      Min (set (map (\<lambda>g. lr ! g) (dgroup fi di))), Max (set (map (\<lambda>g. lr ! g) (dgroup fi di))) + 1))"
  have inj: "inj_on fname (set file_range)"
  proof (rule inj_onI)
    fix a b assume "a \<in> set file_range" "b \<in> set file_range" "fname a = fname b"
    then have "nat a = nat b" "0 \<le> a" "0 \<le> b"
      using ok dist by (auto simp: fname_def nth_eq_iff_index_eq)
    then show "a = b" by simp
  qed
  have entry: "\<And>fi. fi \<in> set file_range \<Longrightarrow> map_of (of_file out) (fname fi) = Some (E fi)"
    unfolding out_def using map_of_fold_update [OF inj] by simp
  define F where "F = (\<lambda>file_name. case map_of (of_file out) file_name of None \<Rightarrow> []
            | Some e \<Rightarrow> map (\<lambda>(dataset_name, ends). (file_name, dataset_name, ends))
                         (zip (Datasets e) (Ends e)))"
  have Ffi: "F (fname fi) = map (rd fi) (drange fi)" if fi: "fi \<in> set file_range" for fi
  proof -
    have "F (fname fi) = map (\<lambda>(dn, ends). (fname fi, dn, ends)) (zip (Datasets (E fi)) (Ends (E fi)))"
      by (simp only: F_def entry [OF fi] option.case)
    also have "\<dots> = map (rd fi) (drange fi)"
      by (simp add: E_def entry_of_def zip_map_pair drange sel rd_def dname_def fname_def)
    finally show ?thesis .
  qed
  have reads: "reads_of out = concat (map (\<lambda>fi. map (rd fi) (drange fi)) file_range)"
  proof -
    have "reads_of out = concat (map F (files out))" by (simp add: reads_of_def F_def)
    also have "files out = map fname file_range" by (simp add: out_def)
    also have "map F (map fname file_range) = map (\<lambda>fi. map (rd fi) (drange fi)) file_range"
      unfolding map_map comp_def by (intro map_cong refl Ffi)
    finally show ?thesis .
  qed

  text \<open>Every read is the run of the samples of its dataset in the batch.\<close>
  have run_of: "samples_of_read (rd fi di) = map smp (dgroup fi di)"
    if fi: "fi \<in> set file_range" and di: "di \<in> set (drange fi)" for fi di
  proof -
    have conv: "\<forall>i j k. s \<le> i \<and> i \<le> j \<and> j \<le> k \<and> k < e \<and> (fr ! i = fi \<and> dr ! i = di)
                   \<and> (fr ! k = fi \<and> dr ! k = di) \<longrightarrow> (fr ! j = fi \<and> dr ! j = di)"
    proof (intro allI impI)
      fix i j k
      assume a: "s \<le> i \<and> i \<le> j \<and> j \<le> k \<and> k < e \<and> (fr ! i = fi \<and> dr ! i = di)
                   \<and> (fr ! k = fi \<and> dr ! k = di)"
      then have "k < length fr" using se(2) by (simp add: fr_def)
      then show "fr ! j = fi \<and> dr ! j = di" using P3 [of i j k] a by simp
    qed
    from interval_filter [OF conv] obtain a b where
      ab: "dgroup fi di = [a..<b]" unfolding dgroup_def gs_def by blast
    have ne: "a < b" using dgroup_ne [OF fi di] ab by simp
    have mem: "\<And>g. a \<le> g \<and> g < b \<Longrightarrow> g \<in> set (dgroup fi di)" unfolding ab by simp
    then have key: "\<forall>g. a \<le> g \<and> g < b \<longrightarrow> file_row h ! g = fi \<and> dataset_row h ! g = di"
      by (auto simp: dgroup_def fr_def dr_def)
    have "b - 1 \<in> set (dgroup fi di)" using mem ne by simp
    then have "b - 1 < e" by (simp add: dgroup_def gs_def)
    then have b: "b \<le> length (file_row h)" using se(2) ne by linarith
    have ends: "[Min (set (map (\<lambda>g. lr ! g) [a..<b])) .. Max (set (map (\<lambda>g. lr ! g) [a..<b])) + 1 - 1]
                = map (\<lambda>g. lr ! g) [a..<b]"
      unfolding lr_def by (rule run_ends [OF mono b ne key])
    have "samples_of_read (rd fi di) = map (\<lambda>l. (fname fi, dname fi di, l)) (map (\<lambda>g. lr ! g) [a..<b])"
      unfolding rd_def samples_of_read_def ab by (simp only: prod.case ends)
    also have "\<dots> = map smp [a..<b]"
      using key
      by (auto simp: smp_def sample_at_def Let_def fname_def dname_def lr_def)
    finally show ?thesis by (simp add: ab)
  qed

  text \<open>The runs of a file in dataset order, and the files in order, give the batch.\<close>
  have sorted_f: "sorted (map (\<lambda>g. fr ! g) gs)"
    unfolding gs_def sorted_map
    by (rule sorted_wrt_mono_rel [OF _ sorted_wrt_upt]) (use P1 se(2) in \<open>auto simp: fr_def\<close>)
  have sorted_d: "sorted (map (\<lambda>g. dr ! g) (fgroup fi))" for fi
  proof -
    have "sorted_wrt (<) (fgroup fi)"
      unfolding fgroup_def gs_def by (intro sorted_wrt_filter) simp
    then have "sorted_wrt (\<lambda>x y. dr ! x \<le> dr ! y) (fgroup fi)"
    proof (rule sorted_wrt_mono_rel [rotated])
      fix x y assume "x \<in> set (fgroup fi)" "y \<in> set (fgroup fi)" "x < y"
      then show "dr ! x \<le> dr ! y"
        using P2 [of x y] inN by (auto simp: fgroup_def)
    qed
    then show ?thesis by (simp add: sorted_map)
  qed
  have dg: "dgroup fi di = filter (\<lambda>g. dr ! g = di) (fgroup fi)" for fi di
    by (simp add: dgroup_def fgroup_def conj_commute)
  have file_samples: "concat (map (\<lambda>di. samples_of_read (rd fi di)) (drange fi)) = map smp (fgroup fi)"
    if fi: "fi \<in> set file_range" for fi
  proof -
    have e1: "map (\<lambda>di. samples_of_read (rd fi di)) (drange fi) = map (\<lambda>di. map smp (dgroup fi di)) (drange fi)"
      by (intro map_cong refl run_of [OF fi])
    have "concat (map (\<lambda>di. samples_of_read (rd fi di)) (drange fi))
          = concat (map (\<lambda>di. map smp (dgroup fi di)) (drange fi))"
      by (simp only: e1)
    also have "\<dots> = map smp (concat (map (\<lambda>di. filter (\<lambda>g. dr ! g = di) (fgroup fi)) (drange fi)))"
      by (simp add: map_concat comp_def dg)
    also have "\<dots> = map smp (fgroup fi)"
      unfolding drange_def using sorted_groups [OF sorted_d [of fi]] by simp
    finally show ?thesis .
  qed
  have samples: "concat (map samples_of_read (reads_of out)) = map smp gs"
  proof -
    have "concat (map samples_of_read (reads_of out))
          = concat (map (\<lambda>fi. concat (map (\<lambda>di. samples_of_read (rd fi di)) (drange fi))) file_range)"
      by (simp add: reads map_concat comp_def concat_concat_map)
    also have "\<dots> = concat (map (\<lambda>fi. map smp (fgroup fi)) file_range)"
    proof -
      have "map (\<lambda>fi. concat (map (\<lambda>di. samples_of_read (rd fi di)) (drange fi))) file_range
            = map (\<lambda>fi. map smp (fgroup fi)) file_range"
        by (intro map_cong refl file_samples)
      then show ?thesis by (simp only:)
    qed
    also have "\<dots> = map smp (concat (map (\<lambda>fi. filter (\<lambda>g. fr ! g = fi) gs) file_range))"
      by (simp add: map_concat comp_def fgroup_def)
    also have "\<dots> = map smp gs"
      unfolding file_range_def using sorted_groups [OF sorted_f] by simp
    finally show ?thesis .
  qed

  text \<open>No read is empty, and there is one read for every pair of the batch.\<close>
  have nonempty: "\<forall>r \<in> set (reads_of out). fst (snd (snd r)) < snd (snd (snd r))"
  proof
    fix r assume "r \<in> set (reads_of out)"
    then obtain fi di where fd: "fi \<in> set file_range" "di \<in> set (drange fi)" "r = rd fi di"
      by (auto simp: reads)
    define V where "V = set (map (\<lambda>g. lr ! g) (dgroup fi di))"
    have "finite V" "V \<noteq> {}" using dgroup_ne [OF fd(1,2)] by (simp_all add: V_def)
    then have "Min V \<le> Max V" by simp
    then have "Min V < Max V + 1" by simp
    then show "fst (snd (snd r)) < snd (snd (snd r))"
      unfolding fd(3) rd_def V_def by (simp only: fst_conv snd_conv)
  qed
  define PL where "PL = concat (map (\<lambda>fi. map (Pair fi) (drange fi)) file_range)"
  have "distinct PL"
    unfolding PL_def by (rule distinct_pairs) (simp_all add: file_range_def drange_def)
  moreover have "set PL = (\<lambda>g. (fr ! g, dr ! g)) ` set gs"
  proof (intro set_eqI iffI)
    fix p assume "p \<in> set PL"
    then obtain g g' where "g \<in> set gs" "g' \<in> set gs" "fr ! g' = fr ! g" "p = (fr ! g, dr ! g')"
      by (auto simp: PL_def set_frange set_drange fgroup_def)
    then have "p = (fr ! g', dr ! g')" by simp
    then show "p \<in> (\<lambda>g. (fr ! g, dr ! g)) ` set gs" using \<open>g' \<in> set gs\<close> by blast
  next
    fix p assume "p \<in> (\<lambda>g. (fr ! g, dr ! g)) ` set gs"
    then show "p \<in> set PL"
      by (auto simp: PL_def set_frange set_drange fgroup_def)
  qed
  moreover have "length PL = length (reads_of out)"
    by (simp add: PL_def reads length_concat_map comp_def)
  ultimately have count: "length (reads_of out) = card ((\<lambda>g. (fr ! g, dr ! g)) ` set gs)"
    by (metis distinct_card)
  show ?thesis
    using run samples nonempty count
    by (auto simp: covers_def smp_def gs_def fr_def dr_def)
qed

lemma all_triples_monotonic:
  "monotonic_map \<lparr>file_row = map fst (all_triples dnpd),
                  dataset_row = map (fst \<circ> snd) (all_triples dnpd),
                  local_row = map (snd \<circ> snd) (all_triples dnpd)\<rparr>"
proof (rule triples_monotonic)
  show "sorted (all_triples dnpd)" by (rule sorted_all_triples)
  fix f d
  show "\<exists>m. filter (\<lambda>t. fst t = f \<and> fst (snd t) = d) (all_triples dnpd)
             = map (\<lambda>k. (f, d, int k)) [0..<m]"
  proof (cases "0 \<le> f \<and> nat f < length dnpd \<and> 0 \<le> d \<and> nat d < length (dnpd ! nat f)")
    case True
    then show ?thesis unfolding filter_all_triples by auto
  next
    case False
    have "filter (\<lambda>t. fst t = f \<and> fst (snd t) = d) (all_triples dnpd) = []"
      by (simp only: filter_all_triples False if_False)
    then have "filter (\<lambda>t. fst t = f \<and> fst (snd t) = d) (all_triples dnpd)
               = map (\<lambda>k. (f, d, int k)) [0..<0]"
      by simp
    then show ?thesis by blast
  qed
qed

lemma example_map_monotonic: "monotonic_map example_map"
proof -
  have "\<lparr>file_row = map fst (all_triples [[2, 1], [3]]),
         dataset_row = map (fst \<circ> snd) (all_triples [[2, 1], [3]]),
         local_row = map (snd \<circ> snd) (all_triples [[2, 1], [3]])\<rparr> = example_map"
    by code_simp
  then show ?thesis using all_triples_monotonic [of "[[2, 1], [3]]"] by simp
qed

lemma example_names_cover: "names_cover example_map example_files example_datasets"
proof -
  have "\<forall>g < 6. 0 \<le> file_row example_map ! g
          \<and> nat (file_row example_map ! g) < length example_files
          \<and> (\<exists>names. example_datasets (example_files ! nat (file_row example_map ! g)) = Some names
                \<and> 0 \<le> dataset_row example_map ! g
                \<and> nat (dataset_row example_map ! g) < length names)"
    by (simp add: example_map_def example_files_def example_datasets_def
        numeral_eq_Suc less_Suc_eq)
  then show ?thesis
    by (simp add: names_cover_def example_files_def) (simp add: example_map_def)
qed

text \<open>
  Claim C7.  Over a monotonic index map whose indices all have names, and for batches
  that are half-open global ranges within the map, \<open>get_batch_ends\<close> returns for every
  batch an element whose reads, one non-empty half-open local range for each (file,
  dataset) pair of the batch, cover in file-then-dataset order exactly the samples of the
  batch.
\<close>

theorem get_batch_ends_contiguous:
  assumes "monotonic_map h" and "names_cover h file_list source_dict"
    and "\<forall>r \<in> set ranges. 0 \<le> fst r \<and> fst r \<le> snd r \<and> snd r \<le> int (length (file_row h))"
  shows "\<exists>outs. get_batch_ends h ranges file_list source_dict = Inr outs
           \<and> length outs = length ranges
           \<and> (\<forall>i < length ranges. covers h file_list source_dict (ranges ! i) (outs ! i))"
  using assms(3)
proof (induction ranges)
  case Nil
  then show ?case by simp
next
  case (Cons r ranges)
  define s where "s = nat (fst r)"
  define e where "e = nat (snd r)"
  have r: "r = (int s, int e)" and se: "s \<le> e" "e \<le> length (file_row h)"
    using Cons.prems by (auto simp: s_def e_def)
  from batch_ends_of_covers [OF assms(1,2) se] obtain out where
    out: "batch_ends_of h r file_list source_dict = Inr out" "covers h file_list source_dict r out"
    unfolding r by blast
  from Cons.IH Cons.prems obtain outs where
    outs: "get_batch_ends h ranges file_list source_dict = Inr outs" "length outs = length ranges"
      "\<forall>i < length ranges. covers h file_list source_dict (ranges ! i) (outs ! i)"
    by auto
  have "get_batch_ends h (r # ranges) file_list source_dict = Inr (out # outs)"
    by (simp add: out(1) outs(1) bnd_def)
  moreover have "\<forall>i < length (r # ranges). covers h file_list source_dict ((r # ranges) ! i) ((out # outs) ! i)"
    using out(2) outs(3) by (auto simp: nth_Cons')
  ultimately show ?case using outs(2) by auto
qed

lemma example_batch_ends:
  "get_batch_ends example_map [(0, 2), (2, 5), (5, 6)] example_files example_datasets =
     Inr [\<lparr>files = [''a.h5''], of_file = [(''a.h5'', \<lparr>Datasets = [''x''], Ends = [(0, 2)]\<rparr>)]\<rparr>,
          \<lparr>files = [''a.h5'', ''b.h5''],
            of_file = [(''a.h5'', \<lparr>Datasets = [''y''], Ends = [(0, 1)]\<rparr>),
                       (''b.h5'', \<lparr>Datasets = [''z''], Ends = [(0, 2)]\<rparr>)]\<rparr>,
          \<lparr>files = [''b.h5''], of_file = [(''b.h5'', \<lparr>Datasets = [''z''], Ends = [(2, 3)]\<rparr>)]\<rparr>]"
  by code_simp

theorem get_batch_ends_contiguous_witness:
  "monotonic_map example_map \<and> names_cover example_map example_files example_datasets
   \<and> (0::int) \<le> 2 \<and> (2::int) \<le> 5 \<and> 5 \<le> int (length (file_row example_map))
   \<and> covers example_map example_files example_datasets (2, 5)
        \<lparr>files = [''a.h5'', ''b.h5''],
          of_file = [(''a.h5'', \<lparr>Datasets = [''y''], Ends = [(0, 1)]\<rparr>),
                     (''b.h5'', \<lparr>Datasets = [''z''], Ends = [(0, 2)]\<rparr>)]\<rparr>"
proof -
  define ranges :: "(int \<times> int) list" where "ranges = [(0, 2), (2, 5), (5, 6)]"
  define o2 where "o2 = \<lparr>files = [''a.h5'', ''b.h5''],
          of_file = [(''a.h5'', \<lparr>Datasets = [''y''], Ends = [(0, 1)]\<rparr>),
                     (''b.h5'', \<lparr>Datasets = [''z''], Ends = [(0, 2)]\<rparr>)]\<rparr>"
  have rng: "\<forall>r \<in> set ranges.
         0 \<le> fst r \<and> fst r \<le> snd r \<and> snd r \<le> int (length (file_row example_map))"
    by (simp add: example_map_def ranges_def)
  have "\<exists>outs. get_batch_ends example_map ranges example_files example_datasets = Inr outs
           \<and> length outs = length ranges
           \<and> (\<forall>i < length ranges.
                 covers example_map example_files example_datasets (ranges ! i) (outs ! i))"
    by (rule get_batch_ends_contiguous [OF example_map_monotonic example_names_cover rng])
  then obtain outs where
    o: "get_batch_ends example_map ranges example_files example_datasets = Inr outs"
    and c: "\<forall>i < length ranges.
              covers example_map example_files example_datasets (ranges ! i) (outs ! i)"
    by (elim exE conjE)
  have "outs ! 1 = o2"
    using o unfolding ranges_def example_batch_ends o2_def by auto
  moreover have "ranges ! 1 = (2, 5)" "1 < length ranges" by (simp_all add: ranges_def)
  ultimately have cov: "covers example_map example_files example_datasets (2, 5) o2"
    using c by metis
  have "5 \<le> int (length (file_row example_map))" by (simp add: example_map_def)
  then show ?thesis
    using example_map_monotonic example_names_cover cov
    unfolding o2_def by simp
qed


section \<open>The parser of the file list\<close>

lemma first_loop_eq:
  "first_loop fs ls n (fl, pos) =
     (if missing_file fs (sections ls) then Inl Exception
      else Inr (fl @ map fst (sections ls), pos @ file_positions ls n))"
proof (induction ls arbitrary: n fl pos)
  case Nil
  then show ?case by (simp add: missing_file_def)
next
  case (Cons l ls)
  show ?case
  proof (cases "is_file_line l")
    case False
    then show ?thesis using Cons by (simp add: missing_file_def)
  next
    case True
    then show ?thesis
      using Cons by (cases "fs (drop 5 l)") (simp_all add: missing_file_def Let_def)
  qed
qed

lemma length_file_positions: "length (file_positions ls n) = length (sections ls)"
  by (induction ls arbitrary: n) auto

lemma file_not_dataset: "is_file_line l \<Longrightarrow> \<not> is_dataset_line l"
proof
  assume f: "is_file_line l" and d: "is_dataset_line l"
  have "take 5 (take 8 l) = take 5 l" by simp
  then show False using f d by (simp add: is_file_line_def is_dataset_line_def del: take_take)
qed

lemma first_position:
  "(file_positions ls m @ [m + length ls]) ! 0 = m + length (takeWhile (\<lambda>x. \<not> is_file_line x) ls)"
proof (induction ls arbitrary: m)
  case Nil
  then show ?case by simp
next
  case (Cons l ls)
  show ?case
  proof (cases "is_file_line l")
    case True
    then show ?thesis by simp
  next
    case False
    then show ?thesis using Cons [of "Suc m"] by simp
  qed
qed

lemma segment:
  assumes "k < length (sections ls)"
  shows "user_datasets (pre @ ls)
           ((file_positions ls (length pre) @ [length pre + length ls]) ! k)
           ((file_positions ls (length pre) @ [length pre + length ls]) ! Suc k)
         = snd (sections ls ! k)"
  using assms
proof (induction ls arbitrary: pre k)
  case Nil
  then show ?case by simp
next
  case (Cons l ls)
  have shift: "pre @ l # ls = (pre @ [l]) @ ls" by simp
  show ?case
  proof (cases "is_file_line l")
    case False
    then have k: "k < length (sections ls)" using Cons.prems by simp
    show ?thesis
      using Cons.IH [OF k, of "pre @ [l]"] False unfolding shift by simp
  next
    case True
    show ?thesis
    proof (cases k)
      case 0
      define tw where "tw = takeWhile (\<lambda>x. \<not> is_file_line x) ls"
      have nxt: "(file_positions ls (Suc (length pre)) @ [Suc (length pre) + length ls]) ! 0
                 = Suc (length pre) + length tw"
        unfolding tw_def by (rule first_position)
      have "take (length tw) ls = tw"
        unfolding tw_def by (rule takeWhile_eq_take [symmetric])
      then have "take (Suc (length tw)) (l # ls) = l # tw" by simp
      then have "user_datasets (pre @ l # ls) (length pre) (Suc (length pre) + length tw)
                 = map (drop 8) (filter is_dataset_line (l # tw))"
        by (simp add: user_datasets_def)
      then show ?thesis
        using True 0 nxt file_not_dataset [OF True] by (simp add: tw_def)
    next
      case (Suc k')
      then have k: "k' < length (sections ls)" using Cons.prems True by simp
      show ?thesis
        using Cons.IH [OF k, of "pre @ [l]"] True Suc unfolding shift by simp
    qed
  qed
qed

lemma second_loop_eq:
  assumes "\<not> missing_file fs S" and "\<forall>k \<in> set ks. k < length S"
    and "\<forall>k < length S. user_datasets L (P ! k) (P ! Suc k) = snd (S ! k)"
  shows "second_loop fs L (map fst S) P ks = Inr (map (\<lambda>k. datasets_to_process fs (S ! k)) ks)"
  using assms(2)
proof (induction ks)
  case Nil
  then show ?case by simp
next
  case (Cons k ks)
  have k: "k < length S" using Cons.prems by simp
  then have "S ! k \<in> set S" by simp
  then obtain f where f: "fs (fst (S ! k)) = Some f"
    using assms(1) by (auto simp: missing_file_def list_ex_iff)
  have u: "user_datasets L (P ! k) (P ! Suc k) = snd (S ! k)" using assms(3) k by simp
  have "(if snd (S ! k) \<noteq> [] then Inr (snd (S ! k))
         else (case fs (map fst S ! k) of None \<Rightarrow> Inl IOError | Some h5file \<Rightarrow> Inr (map fst h5file)))
        = Inr (datasets_to_process fs (S ! k))"
    using k f by (simp add: datasets_to_process_def)
  then show ?case
    using Cons by (simp add: u Let_def bnd_def)
qed

lemma get_shape_eq:
  assumes "\<not> missing_file fs S"
  shows "(get_shape fs (map fst S) (map (datasets_to_process fs) S) = Inr shp)
         \<longleftrightarrow> first_shape fs S = Some shp"
proof (cases S)
  case Nil
  then show ?thesis by (simp add: get_shape_def first_shape_def)
next
  case (Cons sec rest)
  then obtain f where f: "fs (fst sec) = Some f"
    using assms by (auto simp: missing_file_def)
  show ?thesis
  proof (cases "datasets_to_process fs sec")
    case Nil
    then show ?thesis using Cons f by (simp add: get_shape_def first_shape_def)
  next
    case (Cons key keys)
    then show ?thesis
      using \<open>S = sec # rest\<close> f
      by (cases "map_of f key")
         (auto simp: get_shape_def first_shape_def shape_of_def open_dataset_def bnd_def)
  qed
qed

lemma check_datasets_ok:
  "(\<exists>nums. check_datasets f shp keys = Inr nums)
   \<longleftrightarrow> list_all (\<lambda>key. case map_of f key of Some (n # sample_shape) \<Rightarrow> sample_shape = shp
                         | _ \<Rightarrow> False) keys"
proof (induction keys)
  case Nil
  then show ?case by simp
next
  case (Cons key keys)
  show ?case
  proof (cases "map_of f key")
    case None
    then show ?thesis by (simp add: open_dataset_def bnd_def)
  next
    case (Some sh)
    show ?thesis
    proof (cases sh)
      case Nil
      then show ?thesis using Some by (simp add: open_dataset_def bnd_def)
    next
      case (Cons n ss)
      then show ?thesis
        using Some Cons.IH by (auto simp: open_dataset_def bnd_Inr_iff bnd_def split: sum.splits)
    qed
  qed
qed

lemma third_loop_ok:
  "(\<exists>es. third_loop fs shp secs = Inr es)
   \<longleftrightarrow> list_all (\<lambda>sec. case fs (fst sec) of None \<Rightarrow> False
            | Some f \<Rightarrow> list_all (\<lambda>key. case map_of f key of Some (n # sample_shape) \<Rightarrow> sample_shape = shp
                         | _ \<Rightarrow> False) (snd sec)) secs"
proof (induction secs)
  case Nil
  then show ?case by simp
next
  case (Cons sec secs)
  obtain a keys where sec: "sec = (a, keys)" by (cases sec)
  show ?case
  proof (cases "fs a")
    case None
    then show ?thesis by (simp add: sec)
  next
    case (Some f)
    show ?thesis
    proof (cases "\<exists>nums. check_datasets f shp keys = Inr nums")
      case True
      then obtain nums where "check_datasets f shp keys = Inr nums" by blast
      then show ?thesis
        using Some Cons.IH check_datasets_ok [of f shp keys]
        by (auto simp: sec bnd_def split: sum.splits)
    next
      case False
      then obtain e where "check_datasets f shp keys = Inl e"
        by (metis not_Inr_is_Inl)
      then show ?thesis
        using Some False check_datasets_ok [of f shp keys] by (simp add: sec bnd_def)
    qed
  qed
qed

lemma zip_sections:
  "zip (map fst S) (map g S) = map (\<lambda>sec. (fst sec, g sec)) S"
  by (induction S) auto

lemma parse_ok_iff:
  "(\<exists>r. parse_h5_data_list fs raw = Inr r) \<longleftrightarrow> valid_input fs (sections (strip_lines raw))"
proof -
  define L where "L = strip_lines raw"
  define S where "S = sections L"
  define P where "P = file_positions L 0 @ [length L]"
  show ?thesis
  proof (cases "missing_file fs S")
    case True
    then have "parse_h5_data_list fs raw = Inl Exception"
      by (simp add: parse_h5_data_list_def Let_def first_loop_eq bnd_def L_def S_def)
    moreover have "\<not> valid_input fs S"
      using True by (auto simp: valid_input_def missing_file_def list_all_iff list_ex_iff)
    ultimately show ?thesis by (simp add: S_def L_def)
  next
    case present: False
    have first: "first_loop fs L 0 ([], []) = Inr (map fst S, file_positions L 0)"
      using present by (simp add: first_loop_eq S_def)
    have all_open: "list_all (\<lambda>sec. fs (fst sec) \<noteq> None) S"
      using present by (auto simp: missing_file_def list_all_iff list_ex_iff)
    show ?thesis
    proof (cases "distinct (map fst S)")
      case False
      then have "parse_h5_data_list fs raw = Inl Exception"
        by (simp add: parse_h5_data_list_def Let_def bnd_def L_def [symmetric] first)
      moreover have "\<not> valid_input fs S" using False by (simp add: valid_input_def)
      ultimately show ?thesis by (simp add: S_def L_def)
    next
      case True
      then have nodup: "length (remdups (map fst S)) = length (map fst S)"
        by (simp add: distinct_remdups_id)
      have seg: "\<forall>k < length S. user_datasets L (P ! k) (P ! Suc k) = snd (S ! k)"
        using segment [of _ L "[]"] by (simp add: S_def P_def)
      have second: "second_loop fs L (map fst S) P [0..<length S]
                    = Inr (map (datasets_to_process fs) S)"
      proof -
        have "map (\<lambda>k. datasets_to_process fs (S ! k)) [0..<length S]
              = map (datasets_to_process fs) (map ((!) S) [0..<length S])"
          by simp
        also have "\<dots> = map (datasets_to_process fs) S" by (simp only: map_nth)
        finally show ?thesis
          using second_loop_eq [OF present _ seg, of "[0..<length S]"] by simp
      qed
      define Z where "Z = zip (map fst S) (map (datasets_to_process fs) S)"
      have run: "parse_h5_data_list fs raw =
            bnd (get_shape fs (map fst S) (map (datasets_to_process fs) S)) (\<lambda>shp.
            bnd (third_loop fs shp Z) (\<lambda>es. Inr \<lparr>Files = map fst S, shape = shp, info = es\<rparr>))"
        using True
        by (simp add: parse_h5_data_list_def Let_def L_def [symmetric] first second
            P_def [symmetric] Z_def bnd_def)
      have third: "(\<exists>es. third_loop fs shp Z = Inr es)
          \<longleftrightarrow> list_all (\<lambda>sec. list_all (\<lambda>key.
              case shape_of fs (fst sec) key of
                Some (n # sample_shape) \<Rightarrow> sample_shape = shp
              | _ \<Rightarrow> False) (datasets_to_process fs sec)) S" for shp
      proof -
        have "list_all (\<lambda>sec. case fs (fst sec) of None \<Rightarrow> False
            | Some f \<Rightarrow> list_all (\<lambda>key. case map_of f key of Some (n # sample_shape) \<Rightarrow> sample_shape = shp
                         | _ \<Rightarrow> False) (snd sec)) Z
          \<longleftrightarrow> list_all (\<lambda>sec. list_all (\<lambda>key.
              case shape_of fs (fst sec) key of
                Some (n # sample_shape) \<Rightarrow> sample_shape = shp
              | _ \<Rightarrow> False) (datasets_to_process fs sec)) S"
          using all_open
          by (auto simp: Z_def zip_sections list_all_iff shape_of_def split: option.splits)
        then show ?thesis using third_loop_ok [of fs shp Z] by simp
      qed
      show ?thesis
      proof (cases "first_shape fs S")
        case None
        then have "\<forall>shp. get_shape fs (map fst S) (map (datasets_to_process fs) S) \<noteq> Inr shp"
          using get_shape_eq [OF present] by simp
        then have "\<forall>r. parse_h5_data_list fs raw \<noteq> Inr r"
          unfolding run by (auto simp: bnd_Inr_iff)
        moreover have "\<not> valid_input fs S" using None by (simp add: valid_input_def)
        ultimately show ?thesis by (simp add: S_def L_def)
      next
        case (Some shp)
        then have g: "get_shape fs (map fst S) (map (datasets_to_process fs) S) = Inr shp"
          using get_shape_eq [OF present] by simp
        have "(\<exists>r. parse_h5_data_list fs raw = Inr r) \<longleftrightarrow> (\<exists>es. third_loop fs shp Z = Inr es)"
          unfolding run g by (auto simp: bnd_Inr_iff bnd_Inr)
        also have "\<dots> \<longleftrightarrow> valid_input fs S"
          unfolding third using True all_open Some by (simp add: valid_input_def)
        finally show ?thesis by (simp add: S_def L_def)
      qed
    qed
  qed
qed

text \<open>
  Claim C8.  The parser fails, returning no parsed result, whenever a listed file cannot
  be opened, or a path is listed twice, or a listed dataset has a per-sample shape other
  than that of the first dataset of the first file; on a valid input it returns the
  parsed result.
\<close>

theorem parse_h5_data_list_checks:
  "(missing_file fs (sections (strip_lines raw))
      \<or> duplicate_file (sections (strip_lines raw))
      \<or> shape_differs fs (sections (strip_lines raw))
    \<longrightarrow> (\<exists>e. parse_h5_data_list fs raw = Inl e))
   \<and> (valid_input fs (sections (strip_lines raw)) \<longrightarrow> (\<exists>r. parse_h5_data_list fs raw = Inr r))"
proof -
  define S where "S = sections (strip_lines raw)"
  have "\<not> valid_input fs S" if "missing_file fs S"
    using that by (auto simp: valid_input_def missing_file_def list_all_iff list_ex_iff)
  moreover have "\<not> valid_input fs S" if "duplicate_file S"
    using that by (simp add: valid_input_def duplicate_file_def)
  moreover have "\<not> valid_input fs S" if "shape_differs fs S"
  proof
    assume v: "valid_input fs S"
    from that obtain sec key where
      sk: "sec \<in> set S" "key \<in> set (datasets_to_process fs sec)"
      and c: "case (shape_of fs (fst sec) key, first_shape fs S) of
                (Some sh, Some shp) \<Rightarrow> drop 1 sh \<noteq> shp | _ \<Rightarrow> False"
      unfolding shape_differs_def list_ex_iff by blast
    from c obtain sh shp where
      d: "shape_of fs (fst sec) key = Some sh" "first_shape fs S = Some shp" "drop 1 sh \<noteq> shp"
      by (cases "shape_of fs (fst sec) key"; cases "first_shape fs S") auto
    note d = sk d(1) d(2) d(3)
    from v d(1,2,4) have "case shape_of fs (fst sec) key of
                Some (n # sample_shape) \<Rightarrow> sample_shape = shp | _ \<Rightarrow> False"
      by (auto simp: valid_input_def list_all_iff)
    then show False using d(3,5) by (auto split: list.splits)
  qed
  ultimately have "missing_file fs S \<or> duplicate_file S \<or> shape_differs fs S
                   \<longrightarrow> \<not> (\<exists>r. parse_h5_data_list fs raw = Inr r)"
    unfolding parse_ok_iff S_def by blast
  then have "missing_file fs S \<or> duplicate_file S \<or> shape_differs fs S
                   \<longrightarrow> (\<exists>e. parse_h5_data_list fs raw = Inl e)"
    by (metis not_Inr_is_Inl)
  then show ?thesis
    unfolding S_def using parse_ok_iff by blast
qed


theorem parse_h5_data_list_checks_witness:
  "valid_input example_fs (sections (strip_lines example_list))
   \<and> (\<exists>r. parse_h5_data_list example_fs example_list = Inr r)
   \<and> shape_differs example_fs (sections (strip_lines example_list_mixed))
   \<and> (\<exists>e. parse_h5_data_list example_fs example_list_mixed = Inl e)"
proof -
  have v: "valid_input example_fs (sections (strip_lines example_list))"
    by code_simp
  have d: "shape_differs example_fs (sections (strip_lines example_list_mixed))"
    by code_simp
  show ?thesis
    using parse_h5_data_list_checks [of example_fs example_list]
      parse_h5_data_list_checks [of example_fs example_list_mixed] v d
    by blast
qed

section \<open>The distance patch of a worker\<close>

text \<open>
  Claim C4 is about the rows a worker persists.  In a run over three samples in one batch
  with \<open>K = 2\<close> the diagonal stage selects two columns for every row, and the worker then
  stops with \<^verbatim>\<open>NameError\<close>, whether its row has a bin to scan or none: no row is written.
\<close>

theorem distance_patch_name_error:
  "diagonal_seed 3 2 0 example_matrix
     = Inr [([1, 2], [1/2, 1/3]), ([2, 1], [1/4, - 10]), ([2, 1], [- 10, - 10])]
   \<and> distance_patch 3 2 0 example_matrix 0 = Inl NameError
   \<and> distance_patch 3 2 0 example_matrix 1 = Inl NameError"
  by code_simp

end
